theory Spec2Isabelle
  imports Complex_Main "HOL-Library.Log_Nat"
begin

section \<open>Strings and case mapping\<close>

text \<open>
  The component under study is \<^verbatim>\<open>registry/new-york/ui/color-picker-input.tsx\<close>.
  A JavaScript string is a sequence of code units; here it is a \<^typ>\<open>string\<close>, one
  \<^typ>\<open>char\<close> per code unit, which covers the code units \<open>0x00\<close> to \<open>0xFF\<close>.
  \<^verbatim>\<open>toLowerCase\<close> is exact on that range (the Latin capital letters and the capital
  letters \<open>0xC0\<close> to \<open>0xDE\<close> apart from the multiplication sign \<open>0xD7\<close>).
  \<^verbatim>\<open>toUpperCase\<close> maps the letters \<open>a\<close> to \<open>z\<close> only: the component applies it to
  text that has passed \<^verbatim>\<open>isValidHex\<close>, or to the value of the native colour input.
\<close>

definition toLowerCase_char :: "char \<Rightarrow> char" where
  "toLowerCase_char c =
     (let n = (of_char c :: nat)
      in if (65 \<le> n \<and> n \<le> 90) \<or> (192 \<le> n \<and> n \<le> 222 \<and> n \<noteq> 215)
         then char_of (n + 32) else c)"

definition toLowerCase :: "string \<Rightarrow> string" where
  "toLowerCase s = map toLowerCase_char s"

definition toUpperCase_char :: "char \<Rightarrow> char" where
  "toUpperCase_char c =
     (let n = (of_char c :: nat)
      in if 97 \<le> n \<and> n \<le> 122 then char_of (n - 32) else c)"

definition toUpperCase :: "string \<Rightarrow> string" where
  "toUpperCase s = map toUpperCase_char s"

section \<open>Regular expressions with the ignore-case flag\<close>

text \<open>
  The two patterns of the source, \<^verbatim>\<open>/^#?([a-f\d]{2})([a-f\d]{2})([a-f\d]{2})$/i\<close> and
  \<^verbatim>\<open>/^#[0-9A-F]{6}$/i\<close>, are built from single characters, character classes, an
  optional item, a fixed repetition and capture groups. Both carry the flag \<^verbatim>\<open>i\<close>
  and neither the flag \<^verbatim>\<open>u\<close> nor \<^verbatim>\<open>m\<close>: a character matches a pattern character
  when their canonical forms (the upper-case mapping) agree, and \<^verbatim>\<open>$\<close> is the end of
  the input. A code unit outside ASCII is never canonicalised into ASCII, so for these
  patterns, whose members are ASCII, the canonical form of such a code unit is itself.
\<close>

datatype class_item = CRange char char | CDigit

datatype regex =
    RChar char
  | RClass "class_item list"
  | REmpty
  | RSeq regex regex
  | ROpt regex
  | RGroup regex

definition canonicalize :: "char \<Rightarrow> char" where
  "canonicalize c = toUpperCase_char c"

definition chars_between :: "char \<Rightarrow> char \<Rightarrow> char list" where
  "chars_between lo hi = map char_of [of_char lo ..< Suc (of_char hi) :: nat]"

fun class_item_chars :: "class_item \<Rightarrow> char list" where
  "class_item_chars (CRange lo hi) = chars_between lo hi"
| "class_item_chars CDigit = chars_between (CHR ''0'') (CHR ''9'')"

definition class_matches :: "class_item list \<Rightarrow> char \<Rightarrow> bool" where
  "class_matches items ch =
     list_ex (\<lambda>a. canonicalize a = canonicalize ch) (concat (map class_item_chars items))"

text \<open>\<open>r{n}\<close>: \<open>n\<close> copies of \<open>r\<close> in sequence.\<close>

fun repeat :: "nat \<Rightarrow> regex \<Rightarrow> regex" where
  "repeat 0 r = REmpty"
| "repeat (Suc n) r = RSeq r (repeat n r)"

text \<open>
  The backtracking matcher: every way of matching a prefix of the input, in the order
  in which the engine tries them, each with the text of the capture groups (outermost
  and leftmost first) and the rest of the input.
\<close>

fun rmatch :: "regex \<Rightarrow> string \<Rightarrow> (string list \<times> string) list" where
  "rmatch (RChar c) s =
     (case s of [] \<Rightarrow> []
      | x # xs \<Rightarrow> if canonicalize x = canonicalize c then [([], xs)] else [])"
| "rmatch (RClass items) s =
     (case s of [] \<Rightarrow> []
      | x # xs \<Rightarrow> if class_matches items x then [([], xs)] else [])"
| "rmatch REmpty s = [([], s)]"
| "rmatch (RSeq p q) s =
     concat (map (\<lambda>(caps, rest). map (\<lambda>(caps', rest'). (caps @ caps', rest')) (rmatch q rest))
                 (rmatch p s))"
| "rmatch (ROpt p) s = rmatch p s @ [([], s)]"
| "rmatch (RGroup p) s =
     map (\<lambda>(caps, rest). (take (length s - length rest) s # caps, rest)) (rmatch p s)"

text \<open>
  \<^verbatim>\<open>/^p$/i.exec(s)\<close>: the capture groups of the first match that consumes the whole
  input, or \<open>None\<close> for \<^verbatim>\<open>null\<close>. \<^verbatim>\<open>test\<close> says whether there is one.
\<close>

definition regex_exec :: "regex \<Rightarrow> string \<Rightarrow> string list option" where
  "regex_exec p s = map_option fst (find (\<lambda>(caps, rest). rest = []) (rmatch p s))"

definition regex_test :: "regex \<Rightarrow> string \<Rightarrow> bool" where
  "regex_test p s = (regex_exec p s \<noteq> None)"

section \<open>Colour conversion\<close>

text \<open>\<^verbatim>\<open>/^#[0-9A-F]{6}$/i\<close>\<close>

definition isValidHex_pattern :: regex where
  "isValidHex_pattern =
     RSeq (RChar (CHR ''#''))
          (repeat 6 (RClass [CRange (CHR ''0'') (CHR ''9''), CRange (CHR ''A'') (CHR ''F'')]))"

definition isValidHex :: "string \<Rightarrow> bool" where
  "isValidHex color = regex_test isValidHex_pattern color"

text \<open>\<^verbatim>\<open>/^#?([a-f\d]{2})([a-f\d]{2})([a-f\d]{2})$/i\<close>\<close>

definition hex_pair :: regex where
  "hex_pair = RGroup (repeat 2 (RClass [CRange (CHR ''a'') (CHR ''f''), CDigit]))"

definition hexToRgb_pattern :: regex where
  "hexToRgb_pattern =
     RSeq (ROpt (RChar (CHR ''#''))) (RSeq hex_pair (RSeq hex_pair hex_pair))"

text \<open>
  \<^verbatim>\<open>parseInt(s, 16)\<close> on text that starts with a hexadecimal digit: the value of the
  longest prefix of digits. Text with no leading digit gives \<^verbatim>\<open>NaN\<close>, here \<open>None\<close>.
  (The leading white space, sign and \<^verbatim>\<open>0x\<close> that \<^verbatim>\<open>parseInt\<close> also skips cannot
  occur in a capture group of the pattern.)
\<close>

definition hex_digit_value :: "char \<Rightarrow> int option" where
  "hex_digit_value c =
     (let n = (of_char c :: int)
      in if 48 \<le> n \<and> n \<le> 57 then Some (n - 48)
         else if 97 \<le> n \<and> n \<le> 102 then Some (n - 87)
         else if 65 \<le> n \<and> n \<le> 70 then Some (n - 55)
         else None)"

fun parseInt_digits :: "int \<Rightarrow> string \<Rightarrow> int" where
  "parseInt_digits acc [] = acc"
| "parseInt_digits acc (c # cs) =
     (case hex_digit_value c of
        None \<Rightarrow> acc
      | Some d \<Rightarrow> parseInt_digits (16 * acc + d) cs)"

definition parseInt16 :: "string \<Rightarrow> int option" where
  "parseInt16 s =
     (case s of
        [] \<Rightarrow> None
      | c # cs \<Rightarrow> (case hex_digit_value c of
                    None \<Rightarrow> None
                  | Some d \<Rightarrow> Some (parseInt_digits 0 s)))"

record rgb =
  rgb_r :: int
  rgb_g :: int
  rgb_b :: int

text \<open>
  \<^verbatim>\<open>hexToRgb\<close>: \<open>None\<close> is \<^verbatim>\<open>null\<close>. The three groups of a match are two
  hexadecimal digits each (lemma \<open>hexToRgb_pattern_exec\<close> below), so \<^verbatim>\<open>parseInt\<close>
  never gives \<^verbatim>\<open>NaN\<close> here; that dead branch is the last case.
\<close>

definition hexToRgb :: "string \<Rightarrow> rgb option" where
  "hexToRgb hex =
     (case regex_exec hexToRgb_pattern hex of
        None \<Rightarrow> None
      | Some result \<Rightarrow>
          (case map parseInt16 result of
             [Some r, Some g, Some b] \<Rightarrow> Some \<lparr>rgb_r = r, rgb_g = g, rgb_b = b\<rparr>
           | _ \<Rightarrow> None))"

text \<open>
  \<^verbatim>\<open>x.toString(radix)\<close> and the string conversion of a template literal, for a number
  with an integer value (and a radix from 2 to 36).
\<close>

definition digit_char :: "nat \<Rightarrow> char" where
  "digit_char d = ''0123456789abcdefghijklmnopqrstuvwxyz'' ! d"

function digits_of :: "nat \<Rightarrow> nat \<Rightarrow> string" where
  "digits_of radix n =
     (if n < radix \<or> radix < 2 then [digit_char n]
      else digits_of radix (n div radix) @ [digit_char (n mod radix)])"
  by pat_completeness auto
termination
  by (relation "measure (\<lambda>(radix, n). n)") auto

declare digits_of.simps [simp del]

definition Number_toString :: "nat \<Rightarrow> int \<Rightarrow> string" where
  "Number_toString radix x =
     (if x < 0 then CHR ''-'' # digits_of radix (nat (- x)) else digits_of radix (nat x))"

definition rgbToHex :: "int \<Rightarrow> int \<Rightarrow> int \<Rightarrow> string" where
  "rgbToHex r g b =
     ''#'' @ concat (map (\<lambda>x. let hex = Number_toString 16 x
                               in if length hex = 1 then ''0'' @ hex else hex) [r, g, b])"

subsection \<open>Numbers\<close>

text \<open>
  A JavaScript number is an IEEE 754 double. A finite double is a rational number, and
  an arithmetic operation returns the exact result rounded to the nearest double, a
  tie to the one whose significand is even. \<open>round_double\<close> is that rounding: for \<open>x\<close>
  between \<open>2\<^sup>k\<close> and \<open>2\<^sup>k\<^sup>+\<^sup>1\<close> the doubles are the multiples of \<open>2\<^sup>k\<^sup>-\<^sup>5\<^sup>2\<close> (53 significant
  bits), and below \<open>2\<^sup>-\<^sup>1\<^sup>0\<^sup>2\<^sup>2\<close> they are the multiples of \<open>2\<^sup>-\<^sup>1\<^sup>0\<^sup>7\<^sup>4\<close> (the subnormal
  numbers). Overflow (a result of magnitude \<open>2\<^sup>1\<^sup>0\<^sup>2\<^sup>4\<close> or more becomes \<^verbatim>\<open>Infinity\<close>) and
  division by zero are left out. \<^verbatim>\<open>hexToHsl\<close> reaches neither: the values it computes
  are below 361 in magnitude, and its divisors are positive (lemma
  \<open>hexToHsl_divisors\<close> below).
\<close>

definition floor_log2 :: "rat \<Rightarrow> int" where
  "floor_log2 x =
     (case quotient_of x of
        (p, q) \<Rightarrow> let k = bitlen p - bitlen q in if 2 powi k \<le> x then k else k - 1)"

definition round_half_even :: "rat \<Rightarrow> int" where
  "round_half_even m =
     (let f = \<lfloor>m\<rfloor>; r = m - of_int f
      in if r < 1 / 2 then f else if 1 / 2 < r then f + 1 else if even f then f else f + 1)"

definition round_double :: "rat \<Rightarrow> rat" where
  "round_double x =
     (if x = 0 then 0
      else let e = max (floor_log2 \<bar>x\<bar> - 52) (- 1074)
           in sgn x * of_int (round_half_even (\<bar>x\<bar> / 2 powi e)) * 2 powi e)"

text \<open>The operators \<^verbatim>\<open>+\<close>, \<^verbatim>\<open>-\<close>, \<^verbatim>\<open>*\<close> and \<^verbatim>\<open>/\<close> on numbers.\<close>

definition fadd :: "rat \<Rightarrow> rat \<Rightarrow> rat" where
  "fadd a b = round_double (a + b)"

definition fsub :: "rat \<Rightarrow> rat \<Rightarrow> rat" where
  "fsub a b = round_double (a - b)"

definition fmul :: "rat \<Rightarrow> rat \<Rightarrow> rat" where
  "fmul a b = round_double (a * b)"

definition fdiv :: "rat \<Rightarrow> rat \<Rightarrow> rat" where
  "fdiv a b = round_double (a / b)"

text \<open>
  \<^verbatim>\<open>Math.round\<close>: the nearest integer, a tie upwards. This is a function of the value
  of its argument, with no rounding error.
\<close>

definition Math_round :: "rat \<Rightarrow> int" where
  "Math_round x = \<lfloor>x + 1 / 2\<rfloor>"

subsection \<open>\<^verbatim>\<open>hexToHsl\<close>\<close>

record hsl =
  hsl_h :: int
  hsl_s :: int
  hsl_l :: int

text \<open>
  \<^verbatim>\<open>2 - max - min\<close> is \<^verbatim>\<open>(2 - max) - min\<close>; \<^verbatim>\<open>Math.max\<close>, \<^verbatim>\<open>Math.min\<close> and the
  comparisons are exact; the \<^verbatim>\<open>switch\<close> takes the first case that equals \<^verbatim>\<open>max\<close>.
\<close>

definition hexToHsl :: "string \<Rightarrow> hsl option" where
  "hexToHsl hex =
     (case hexToRgb hex of
        None \<Rightarrow> None
      | Some c \<Rightarrow>
          (let r = fdiv (of_int (rgb_r c)) 255;
               g = fdiv (of_int (rgb_g c)) 255;
               b = fdiv (of_int (rgb_b c)) 255;
               mx = max r (max g b);
               mn = min r (min g b);
               l = fdiv (fadd mx mn) 2;
               d = fsub mx mn;
               s = (if mx \<noteq> mn
                    then (if l > 1 / 2 then fdiv d (fsub (fsub 2 mx) mn) else fdiv d (fadd mx mn))
                    else 0);
               h = (if mx \<noteq> mn
                    then (if mx = r then fdiv (fadd (fdiv (fsub g b) d) (if g < b then 6 else 0)) 6
                          else if mx = g then fdiv (fadd (fdiv (fsub b r) d) 2) 6
                          else if mx = b then fdiv (fadd (fdiv (fsub r g) d) 4) 6
                          else 0)
                    else 0)
           in Some \<lparr>hsl_h = Math_round (fmul h 360),
                     hsl_s = Math_round (fmul s 100),
                     hsl_l = Math_round (fmul l 100)\<rparr>))"

section \<open>The component\<close>

datatype ColorFormat = FormatHex | FormatRgb | FormatHsl

text \<open>
  The props the handlers read, and \<open>setItem_throws\<close>: whether
  \<^verbatim>\<open>localStorage.setItem\<close> throws in this environment.
\<close>

record props =
  disabled :: bool
  maxRecentColors :: int
  format :: ColorFormat
  setItem_throws :: bool

text \<open>
  The state of one instance: the three \<^verbatim>\<open>useState\<close> cells the handlers write, the
  arguments of the calls of \<^verbatim>\<open>onChange\<close> so far (oldest first), and the list last
  written under the key \<^verbatim>\<open>color-picker-recent\<close> (as its JSON text), if any.
\<close>

record state =
  currentColor :: string
  inputValue :: string
  recentColors :: "string list"
  onChange_calls :: "string list"
  stored_recent :: "string list option"

text \<open>
  \<^verbatim>\<open>xs.slice(0, e)\<close> for an integer \<open>e\<close>: a negative end counts from the end of the
  array.
\<close>

definition slice0 :: "'a list \<Rightarrow> int \<Rightarrow> 'a list" where
  "slice0 xs e =
     (let len = int (length xs);
          k = (if e < 0 then max (len + e) 0 else min e len)
      in take (nat k) xs)"

definition updateRecentColors :: "props \<Rightarrow> string \<Rightarrow> state \<Rightarrow> state" where
  "updateRecentColors p color st =
     (if \<not> isValidHex color then st
      else
        let prev = recentColors st;
            filtered = filter (\<lambda>c. toLowerCase c \<noteq> toLowerCase color) prev;
            updated = slice0 (color # filtered) (maxRecentColors p)
        in st\<lparr>recentColors := updated,
                stored_recent := (if setItem_throws p then stored_recent st else Some updated)\<rparr>)"

definition handleColorChange :: "props \<Rightarrow> string \<Rightarrow> state \<Rightarrow> state" where
  "handleColorChange p newColor st =
     (if disabled p then st
      else updateRecentColors p newColor
             (st\<lparr>currentColor := newColor,
                  inputValue := newColor,
                  onChange_calls := onChange_calls st @ [newColor]\<rparr>))"

definition handleNativePickerChange :: "props \<Rightarrow> string \<Rightarrow> state \<Rightarrow> state" where
  "handleNativePickerChange p v st = handleColorChange p (toUpperCase v) st"


definition handlePresetClick :: "props \<Rightarrow> string \<Rightarrow> state \<Rightarrow> state" where
  "handlePresetClick p color st = (if disabled p then st else handleColorChange p color st)"

definition getFormattedColor :: "ColorFormat \<Rightarrow> string \<Rightarrow> string" where
  "getFormattedColor fmt color =
     (if \<not> isValidHex color then color
      else case fmt of
        FormatRgb \<Rightarrow>
          (case hexToRgb color of
             Some c \<Rightarrow> ''rgb('' @ Number_toString 10 (rgb_r c) @ '', ''
                         @ Number_toString 10 (rgb_g c) @ '', ''
                         @ Number_toString 10 (rgb_b c) @ '')''
           | None \<Rightarrow> color)
      | FormatHsl \<Rightarrow>
          (case hexToHsl color of
             Some c \<Rightarrow> ''hsl('' @ Number_toString 10 (hsl_h c) @ '', ''
                         @ Number_toString 10 (hsl_s c) @ ''%, ''
                         @ Number_toString 10 (hsl_l c) @ ''%)''
           | None \<Rightarrow> color)
      | FormatHex \<Rightarrow> color)"

subsection \<open>Loading the history\<close>

text \<open>
  The effect run at activation reads the key, parses the text as JSON and stores the
  parsed value in the state cell of the history. \<^verbatim>\<open>localStorage.getItem\<close> and
  \<^verbatim>\<open>JSON.parse\<close> belong to the platform: the result of the read and the parser are
  parameters. Either may throw. \<^verbatim>\<open>JSON.parse\<close> returns \<^verbatim>\<open>any\<close>, so the cell holds
  a JSON value after the effect; it starts as the empty array.
\<close>

datatype json =
    JNull
  | JBool bool
  | JNumber rat
  | JString string
  | JArray "json list"
  | JObject "(string \<times> json) list"

datatype 'a completion = Normal 'a | Throw

definition load_recent ::
  "string option completion \<Rightarrow> (string \<Rightarrow> json completion) \<Rightarrow> json \<Rightarrow> json" where
  "load_recent getItem JSON_parse recent =
     (case getItem of
        Throw \<Rightarrow> recent
      | Normal None \<Rightarrow> recent
      | Normal (Some stored) \<Rightarrow>
          if stored = [] then recent
          else (case JSON_parse stored of
                  Throw \<Rightarrow> recent
                | Normal v \<Rightarrow> v))"

section \<open>Notions of the specification\<close>

text \<open>A hexadecimal digit, and a string of exactly six of them.\<close>

definition is_hex_digit :: "char \<Rightarrow> bool" where
  "is_hex_digit c = (c \<in> set ''0123456789abcdefABCDEF'')"

definition hex6 :: "string \<Rightarrow> bool" where
  "hex6 t = (length t = 6 \<and> list_all is_hex_digit t)"

text \<open>The value of a hexadecimal digit, by table; \<open>0\<close> for any other character.\<close>

definition hex_value :: "char \<Rightarrow> int" where
  "hex_value c =
     (case map_of (zip ''0123456789abcdefABCDEF''
                       [0, 1, 2, 3, 4, 5, 6, 7, 8, 9, 10, 11, 12, 13, 14, 15,
                        10, 11, 12, 13, 14, 15]) c of
        Some v \<Rightarrow> v
      | None \<Rightarrow> 0)"

text \<open>The channel that two hexadecimal digits denote.\<close>

definition channel :: "char \<Rightarrow> char \<Rightarrow> int" where
  "channel hi lo = 16 * hex_value hi + hex_value lo"

text \<open>
  The transform of the specification in exact arithmetic, before rounding: the
  channels normalised to \<open>[0, 1]\<close>; the lightness the mean of the largest and the
  smallest channel; the saturation their difference over \<open>2 - max - min\<close> when the
  lightness exceeds one half and over \<open>max + min\<close> otherwise; the hue piecewise by the
  largest channel, with 6 added when that is red and green is below blue; hue and
  saturation 0 when the largest and the smallest channel coincide. The hue is in
  degrees, saturation and lightness are in percent.
\<close>

definition lightness_spec :: "rgb \<Rightarrow> rat" where
  "lightness_spec c =
     (let r = of_int (rgb_r c) / 255; g = of_int (rgb_g c) / 255; b = of_int (rgb_b c) / 255;
          mx = max r (max g b); mn = min r (min g b)
      in (mx + mn) / 2 * 100)"

definition saturation_spec :: "rgb \<Rightarrow> rat" where
  "saturation_spec c =
     (let r = of_int (rgb_r c) / 255; g = of_int (rgb_g c) / 255; b = of_int (rgb_b c) / 255;
          mx = max r (max g b); mn = min r (min g b)
      in if mx = mn then 0
         else if (mx + mn) / 2 > 1 / 2 then (mx - mn) / (2 - mx - mn) * 100
         else (mx - mn) / (mx + mn) * 100)"

definition hue_spec :: "rgb \<Rightarrow> rat" where
  "hue_spec c =
     (let r = of_int (rgb_r c) / 255; g = of_int (rgb_g c) / 255; b = of_int (rgb_b c) / 255;
          mx = max r (max g b); mn = min r (min g b); d = mx - mn
      in if mx = mn then 0
         else if mx = r then ((g - b) / d + (if g < b then 6 else 0)) / 6 * 360
         else if mx = g then ((b - r) / d + 2) / 6 * 360
         else ((r - g) / d + 4) / 6 * 360)"

text \<open>
  An integer that is a nearest integer of \<open>x\<close>, up to the error that the computation in
  doubles can add to it.
\<close>

definition rounds :: "int \<Rightarrow> rat \<Rightarrow> bool" where
  "rounds k x = (\<bar>of_int k - x\<bar> \<le> 1 / 2 + 1 / 1000000000)"

text \<open>
  The decimal numeral of a natural number: a non-empty string of decimal digits with no
  leading zero (but for \<open>0\<close> itself) whose value is the number.
\<close>

definition decimal_value :: "string \<Rightarrow> int" where
  "decimal_value s = foldl (\<lambda>a ch. 10 * a + (of_char ch - 48)) 0 s"

definition is_decimal :: "string \<Rightarrow> int \<Rightarrow> bool" where
  "is_decimal s n =
     (s \<noteq> [] \<and> list_all (\<lambda>ch. ch \<in> set ''0123456789'') s
      \<and> (hd s = CHR ''0'' \<longrightarrow> s = ''0'') \<and> decimal_value s = n)"

text \<open>The relative error of one rounding to a double is at most \<open>2\<^sup>-\<^sup>5\<^sup>3\<close>.\<close>

definition eps :: rat where
  "eps = 1 / 2 ^ 53"

text \<open>A sample configuration and a sample state, for concrete instances.\<close>

definition sample_props :: props where
  "sample_props = \<lparr>disabled = False, maxRecentColors = 6, format = FormatHex,
                     setItem_throws = False\<rparr>"

definition sample_state :: state where
  "sample_state = \<lparr>currentColor = ''#FF5733'', inputValue = ''#FF5733'',
                     recentColors = [''#FF5733'', ''#3b82f6'', ''#000000''],
                     onChange_calls = [], stored_recent = None\<rparr>"

section \<open>The history policy of the specification\<close>

text \<open>
  \<open>record(list, color, max)\<close> in the words of the specification, for a valid colour:
  remove the entries equal to the colour when case is ignored, prepend the colour in
  upper case, keep at most \<open>max\<close> entries.
\<close>

definition record_spec :: "string list \<Rightarrow> string \<Rightarrow> int \<Rightarrow> string list" where
  "record_spec list color mx =
     take (nat mx) (toUpperCase color # filter (\<lambda>e. toLowerCase e \<noteq> toLowerCase color) list)"

text \<open>The invariant of the history: no two entries equal when case is ignored, at most \<open>max\<close> entries.\<close>

definition recent_invariant :: "string list \<Rightarrow> int \<Rightarrow> bool" where
  "recent_invariant list mx = (distinct (map toLowerCase list) \<and> int (length list) \<le> mx)"

text \<open>Recording the colours of a list one after the other, the first one first.\<close>

definition recordAll :: "props \<Rightarrow> string list \<Rightarrow> state \<Rightarrow> state" where
  "recordAll p colors st = foldl (\<lambda>s c. updateRecentColors p c s) st colors"


section \<open>Characters and the two patterns\<close>

lemma of_char_lt: "(of_char (c::char) :: nat) < 256"
  by (cases c) (simp add: of_char_def horner_sum_eq_sum)


lemma canonicalize_eq_iff:
  "canonicalize x = y \<longleftrightarrow>
     (let m = (of_char y :: nat)
      in if 65 \<le> m \<and> m \<le> 90 then x = y \<or> x = char_of (m + 32)
         else if 97 \<le> m \<and> m \<le> 122 then False else x = y)"
proof -
  let ?n = "of_char x :: nat" and ?m = "of_char y :: nat"
  have inj: "\<And>a b::char. (of_char a :: nat) = of_char b \<longleftrightarrow> a = b"
    by (rule of_char_eq_iff)
  have nlt: "?n < 256" by (rule of_char_lt)
  have mlt: "?m < 256" by (rule of_char_lt)
  show ?thesis
  proof (cases "97 \<le> ?n \<and> ?n \<le> 122")
    case True
    then have c: "canonicalize x = char_of (?n - 32)"
      by (simp add: canonicalize_def toUpperCase_char_def Let_def)
    have oc: "(of_char (char_of (?n - 32) :: char) :: nat) = ?n - 32"
    proof -
      have "?n - 32 < 256" using nlt by arith
      then show ?thesis by simp
    qed
    have "char_of (?n - 32) = y \<longleftrightarrow> ?n - 32 = ?m"
      using oc inj by metis
    moreover have "x = char_of (?m + 32) \<longleftrightarrow> ?n = ?m + 32" if "?m \<le> 90"
    proof -
      have "(of_char (char_of (?m + 32) :: char) :: nat) = ?m + 32"
      proof -
        have "?m + 32 < 256" using that by arith
        then show ?thesis by simp
      qed
      then show ?thesis using inj by metis
    qed
    moreover have "x \<noteq> y" if "?m < 97 \<or> ?m > 122" using that True by auto
    moreover have "x \<noteq> y" if "?n - 32 = ?m" using that True by auto
    ultimately show ?thesis using True c
      by (auto simp: Let_def)
  next
    case False
    then have c: "canonicalize x = x"
      by (auto simp add: canonicalize_def toUpperCase_char_def Let_def)
    have "x \<noteq> char_of (?m + 32)" if "65 \<le> ?m" "?m \<le> 90"
    proof
      assume "x = char_of (?m + 32)"
      then have "?n = (?m + 32) mod 256" by simp
      moreover have "?m + 32 < 256" using that by arith
      ultimately have "?n = ?m + 32" by simp
      then show False using False that by simp
    qed
    moreover have "x \<noteq> y" if "97 \<le> ?m \<and> ?m \<le> 122" using that False by auto
    ultimately show ?thesis using c by (auto simp: Let_def)
  qed
qed


lemma of_char_hex:
  "of_char (CHR ''0'') = (48::nat)" "of_char (CHR ''1'') = (49::nat)" "of_char (CHR ''2'') = (50::nat)" "of_char (CHR ''3'') = (51::nat)" "of_char (CHR ''4'') = (52::nat)" "of_char (CHR ''5'') = (53::nat)" "of_char (CHR ''6'') = (54::nat)" "of_char (CHR ''7'') = (55::nat)" "of_char (CHR ''8'') = (56::nat)" "of_char (CHR ''9'') = (57::nat)" "of_char (CHR ''A'') = (65::nat)" "of_char (CHR ''B'') = (66::nat)" "of_char (CHR ''C'') = (67::nat)" "of_char (CHR ''D'') = (68::nat)" "of_char (CHR ''E'') = (69::nat)" "of_char (CHR ''F'') = (70::nat)"
  by code_simp+

lemma char_of_lower_hex:
  "char_of (97::nat) = CHR ''a''" "char_of (98::nat) = CHR ''b''" "char_of (99::nat) = CHR ''c''" "char_of (100::nat) = CHR ''d''" "char_of (101::nat) = CHR ''e''" "char_of (102::nat) = CHR ''f''"
  by code_simp+

lemma canonicalize_hex:
  "canonicalize x = CHR ''0'' \<longleftrightarrow> x = CHR ''0''"
  "canonicalize x = CHR ''1'' \<longleftrightarrow> x = CHR ''1''"
  "canonicalize x = CHR ''2'' \<longleftrightarrow> x = CHR ''2''"
  "canonicalize x = CHR ''3'' \<longleftrightarrow> x = CHR ''3''"
  "canonicalize x = CHR ''4'' \<longleftrightarrow> x = CHR ''4''"
  "canonicalize x = CHR ''5'' \<longleftrightarrow> x = CHR ''5''"
  "canonicalize x = CHR ''6'' \<longleftrightarrow> x = CHR ''6''"
  "canonicalize x = CHR ''7'' \<longleftrightarrow> x = CHR ''7''"
  "canonicalize x = CHR ''8'' \<longleftrightarrow> x = CHR ''8''"
  "canonicalize x = CHR ''9'' \<longleftrightarrow> x = CHR ''9''"
  "canonicalize x = CHR ''A'' \<longleftrightarrow> x = CHR ''A'' \<or> x = CHR ''a''"
  "canonicalize x = CHR ''B'' \<longleftrightarrow> x = CHR ''B'' \<or> x = CHR ''b''"
  "canonicalize x = CHR ''C'' \<longleftrightarrow> x = CHR ''C'' \<or> x = CHR ''c''"
  "canonicalize x = CHR ''D'' \<longleftrightarrow> x = CHR ''D'' \<or> x = CHR ''d''"
  "canonicalize x = CHR ''E'' \<longleftrightarrow> x = CHR ''E'' \<or> x = CHR ''e''"
  "canonicalize x = CHR ''F'' \<longleftrightarrow> x = CHR ''F'' \<or> x = CHR ''f''"
  by (simp_all add: canonicalize_eq_iff of_char_hex char_of_lower_hex)

lemma class_chars1: "concat (map class_item_chars [CRange (CHR ''0'') (CHR ''9''), CRange (CHR ''A'') (CHR ''F'')]) = ''0123456789ABCDEF''"
  by code_simp

lemma class_chars2: "concat (map class_item_chars [CRange (CHR ''a'') (CHR ''f''), CDigit]) = ''abcdef0123456789''"
  by code_simp

lemma canon_consts: "map canonicalize ''0123456789ABCDEF'' = ''0123456789ABCDEF''"
  "map canonicalize ''abcdef0123456789'' = ''ABCDEF0123456789''"
  by code_simp+

lemma class_matches_canon:
  "class_matches items x \<longleftrightarrow> canonicalize x \<in> set (map canonicalize (concat (map class_item_chars items)))"
  unfolding class_matches_def list_ex_iff by (simp add: image_iff) metis

lemma class_hex_upper:
  "class_matches [CRange (CHR ''0'') (CHR ''9''), CRange (CHR ''A'') (CHR ''F'')] x = is_hex_digit x"
  unfolding class_matches_canon class_chars1 canon_consts is_hex_digit_def
  by (simp only: set_simps insert_iff empty_iff canonicalize_hex disj_ac simp_thms)

lemma class_hex_lower:
  "class_matches [CRange (CHR ''a'') (CHR ''f''), CDigit] x = is_hex_digit x"
  unfolding class_matches_canon class_chars2 canon_consts is_hex_digit_def
  by (simp only: set_simps insert_iff empty_iff canonicalize_hex disj_ac simp_thms)



lemma class_hex_upper_fun:
  "class_matches [CRange (CHR ''0'') (CHR ''9''), CRange (CHR ''A'') (CHR ''F'')] = is_hex_digit"
  by (rule ext) (rule class_hex_upper)

lemma class_hex_lower_fun:
  "class_matches [CRange (CHR ''a'') (CHR ''f''), CDigit] = is_hex_digit"
  by (rule ext) (rule class_hex_lower)

lemma canonicalize_hash: "canonicalize x = canonicalize (CHR ''#'') \<longleftrightarrow> x = CHR ''#''"
proof -
  have a: "of_char (CHR ''#'') = (35::nat)" by code_simp
  have b: "canonicalize (CHR ''#'') = CHR ''#''" by code_simp
  show ?thesis unfolding b by (simp add: canonicalize_eq_iff a)
qed

lemma rmatch_repeat_class:
  "rmatch (repeat n (RClass items)) s =
     (if n \<le> length s \<and> list_all (class_matches items) (take n s)
      then [([], drop n s)] else [])"
proof (induction n arbitrary: s)
  case 0
  show ?case by simp
next
  case (Suc n)
  show ?case
  proof (cases s)
    case Nil
    then show ?thesis by simp
  next
    case (Cons x xs)
    then show ?thesis by (simp add: Suc.IH)
  qed
qed

lemma rmatch_group_repeat_class:
  "rmatch (RGroup (repeat n (RClass items))) s =
     (if n \<le> length s \<and> list_all (class_matches items) (take n s)
      then [([take n s], drop n s)] else [])"
  by (simp add: rmatch_repeat_class)

lemma isValidHex_iff:
  "isValidHex s \<longleftrightarrow>
     (case s of [] \<Rightarrow> False
      | x # xs \<Rightarrow> x = CHR ''#'' \<and> length xs = 6 \<and> list_all is_hex_digit xs)"
proof (cases s)
  case Nil
  then show ?thesis
    by (simp add: isValidHex_def regex_test_def regex_exec_def isValidHex_pattern_def)
next
  case (Cons x xs)
  then show ?thesis
    by (simp add: isValidHex_def regex_test_def regex_exec_def isValidHex_pattern_def
        rmatch_repeat_class canonicalize_hash class_hex_upper_fun del: repeat.simps)
qed

lemma not_hex_hash: "\<not> is_hex_digit (CHR ''#'')"
  by (simp add: is_hex_digit_def)


lemma take6_pairs: "take 6 s = take 2 s @ take 2 (drop 2 s) @ take 2 (drop 4 s)"
proof -
  have "take 6 s = take (2 + 4) s" by simp
  also have "\<dots> = take 2 s @ take 4 (drop 2 s)" by (rule take_add)
  also have "take 4 (drop 2 s) = take (2 + 2) (drop 2 s)" by simp
  also have "\<dots> = take 2 (drop 2 s) @ take 2 (drop 2 (drop 2 s))" by (rule take_add)
  also have "drop 2 (drop 2 s) = drop 4 s" by simp
  finally show ?thesis .
qed

lemma rmatch_hex_pair:
  "rmatch hex_pair s =
     (if 2 \<le> length s \<and> list_all is_hex_digit (take 2 s)
      then [([take 2 s], drop 2 s)] else [])"
  unfolding hex_pair_def by (simp only: rmatch_group_repeat_class class_hex_lower_fun)

lemma rmatch_two_pairs:
  "rmatch (RSeq hex_pair hex_pair) s =
     (if 4 \<le> length s \<and> list_all is_hex_digit (take 2 s) \<and> list_all is_hex_digit (take 2 (drop 2 s))
      then [([take 2 s, take 2 (drop 2 s)], drop 4 s)] else [])"
  by (auto simp add: rmatch_hex_pair)

lemma rmatch_three_pairs:
  "rmatch (RSeq hex_pair (RSeq hex_pair hex_pair)) s =
     (if 6 \<le> length s \<and> list_all is_hex_digit (take 6 s)
      then [([take 2 s, take 2 (drop 2 s), take 2 (drop 4 s)], drop 6 s)] else [])"
  unfolding take6_pairs
  by (auto simp add: rmatch_hex_pair rmatch_two_pairs)

lemma hex_digit_table:
  "list_all (\<lambda>c. hex_digit_value c = Some (hex_value c) \<and> 0 \<le> hex_value c \<and> hex_value c < 16
                 \<and> digit_char (nat (hex_value c)) = toLowerCase_char c)
            ''0123456789abcdefABCDEF''"
  by code_simp

lemma hex_digit_facts:
  assumes "is_hex_digit c"
  shows "hex_digit_value c = Some (hex_value c)" and "0 \<le> hex_value c" and "hex_value c < 16"
    and "digit_char (nat (hex_value c)) = toLowerCase_char c"
  using assms hex_digit_table unfolding is_hex_digit_def list_all_iff by blast+

lemma parseInt16_pair:
  "is_hex_digit a \<Longrightarrow> is_hex_digit b \<Longrightarrow> parseInt16 [a, b] = Some (channel a b)"
  by (simp add: parseInt16_def hex_digit_facts channel_def)

lemma hex6_cases:
  "hex6 t \<longleftrightarrow> (\<exists>a b c d e f. t = [a, b, c, d, e, f] \<and> list_all is_hex_digit [a, b, c, d, e, f])"
proof
  assume h: "hex6 t"
  then have len: "length t = 6" by (simp add: hex6_def)
  then obtain a b c d e f where "t = [a, b, c, d, e, f]"
    by (auto simp: length_Suc_conv eval_nat_numeral)
  with h show "\<exists>a b c d e f. t = [a, b, c, d, e, f] \<and> list_all is_hex_digit [a, b, c, d, e, f]"
    by (auto simp: hex6_def)
next
  assume "\<exists>a b c d e f. t = [a, b, c, d, e, f] \<and> list_all is_hex_digit [a, b, c, d, e, f]"
  then show "hex6 t" by (auto simp: hex6_def)
qed

lemma rmatch_opt_char_seq:
  "rmatch (RSeq (ROpt (RChar c)) q) s =
     (case s of
        [] \<Rightarrow> rmatch q []
      | x # xs \<Rightarrow> if canonicalize x = canonicalize c then rmatch q xs @ rmatch q s
                  else rmatch q s)"
  by (cases s) simp_all

lemma hexToRgb_pattern_exec:
  "regex_exec hexToRgb_pattern s =
     (let t = (case s of [] \<Rightarrow> [] | x # xs \<Rightarrow> if x = CHR ''#'' then xs else s)
      in if hex6 t then Some [take 2 t, take 2 (drop 2 t), take 2 (drop 4 t)] else None)"
proof (cases s)
  case Nil
  then show ?thesis
    by (simp add: regex_exec_def hexToRgb_pattern_def rmatch_opt_char_seq rmatch_three_pairs
        hex6_def del: rmatch.simps)
next
  case (Cons x xs)
  show ?thesis
  proof (cases "x = CHR ''#''")
    case True
    have "rmatch (RSeq hex_pair (RSeq hex_pair hex_pair)) (CHR ''#'' # xs) = []"
      by (simp add: rmatch_three_pairs not_hex_hash del: rmatch.simps)
    then show ?thesis using Cons True
      by (auto simp add: regex_exec_def hexToRgb_pattern_def rmatch_opt_char_seq canonicalize_hash
          rmatch_three_pairs hex6_def Let_def simp del: rmatch.simps)
  next
    case False
    then show ?thesis using Cons
      by (auto simp add: regex_exec_def hexToRgb_pattern_def rmatch_opt_char_seq canonicalize_hash
          rmatch_three_pairs hex6_def Let_def simp del: rmatch.simps)
  qed
qed

lemma hexToRgb_hex6:
  assumes "list_all is_hex_digit [a, b, c, d, e, f]"
  shows "hexToRgb [a, b, c, d, e, f]
           = Some \<lparr>rgb_r = channel a b, rgb_g = channel c d, rgb_b = channel e f\<rparr>"
    and "hexToRgb (CHR ''#'' # [a, b, c, d, e, f])
           = Some \<lparr>rgb_r = channel a b, rgb_g = channel c d, rgb_b = channel e f\<rparr>"
proof -
  have nh: "a \<noteq> CHR ''#''" using assms not_hex_hash by auto
  have h6: "hex6 [a, b, c, d, e, f]" using assms by (simp add: hex6_def)
  show "hexToRgb [a, b, c, d, e, f]
           = Some \<lparr>rgb_r = channel a b, rgb_g = channel c d, rgb_b = channel e f\<rparr>"
    using assms nh h6 by (simp add: hexToRgb_def hexToRgb_pattern_exec parseInt16_pair)
  show "hexToRgb (CHR ''#'' # [a, b, c, d, e, f])
           = Some \<lparr>rgb_r = channel a b, rgb_g = channel c d, rgb_b = channel e f\<rparr>"
    using assms h6 by (simp add: hexToRgb_def hexToRgb_pattern_exec parseInt16_pair)
qed

lemma hexToRgb_None_iff:
  "hexToRgb s = None \<longleftrightarrow> \<not> (\<exists>t. hex6 t \<and> (s = t \<or> s = CHR ''#'' # t))"
proof (cases "\<exists>t. hex6 t \<and> (s = t \<or> s = CHR ''#'' # t)")
  case True
  then obtain t where t: "hex6 t" "s = t \<or> s = CHR ''#'' # t" by blast
  then obtain a b c d e f where "t = [a, b, c, d, e, f]" "list_all is_hex_digit [a, b, c, d, e, f]"
    using hex6_cases by blast
  then have "hexToRgb s \<noteq> None" using t(2) hexToRgb_hex6 by fastforce
  then show ?thesis using True by simp
next
  case False
  then have "regex_exec hexToRgb_pattern s = None"
    by (cases s) (auto simp: hexToRgb_pattern_exec Let_def)
  then show ?thesis using False by (simp add: hexToRgb_def)
qed

lemma channel_bounds: "is_hex_digit a \<Longrightarrow> is_hex_digit b \<Longrightarrow> 0 \<le> channel a b \<and> channel a b \<le> 255"
  using hex_digit_facts(2,3)[of a] hex_digit_facts(2,3)[of b] by (simp add: channel_def)

lemma hex_digit_lower_table:
  "list_all (\<lambda>c. is_hex_digit (toLowerCase_char c)
                 \<and> toLowerCase_char (toLowerCase_char c) = toLowerCase_char c)
            ''0123456789abcdefABCDEF''"
  by code_simp

lemma hex_digit_lower:
  assumes "is_hex_digit c"
  shows "is_hex_digit (toLowerCase_char c)"
    and "toLowerCase_char (toLowerCase_char c) = toLowerCase_char c"
  using assms hex_digit_lower_table unfolding is_hex_digit_def list_all_iff by blast+

lemma toLowerCase_char_hash: "toLowerCase_char (CHR ''#'') = CHR ''#''"
  by code_simp

lemma digit_char_0: "digit_char 0 = CHR ''0''"
  by code_simp

lemma padded_hex_channel:
  assumes a: "is_hex_digit a" and b: "is_hex_digit b"
  shows "(let hex = Number_toString 16 (channel a b)
          in if length hex = 1 then ''0'' @ hex else hex)
         = [toLowerCase_char a, toLowerCase_char b]"
proof -
  obtain na nb where na: "hex_value a = int na" "na < 16" and nb: "hex_value b = int nb" "nb < 16"
    using hex_digit_facts(2,3)[OF a] hex_digit_facts(2,3)[OF b]
    by (metis nat_less_iff zero_le_imp_eq_int nat_int of_nat_numeral)
  have da: "digit_char na = toLowerCase_char a" using hex_digit_facts(4)[OF a] na by simp
  have db: "digit_char nb = toLowerCase_char b" using hex_digit_facts(4)[OF b] nb by simp
  have ch: "channel a b = int (16 * na + nb)" by (simp add: channel_def na nb)
  have "nat (int (16 * na + nb)) = 16 * na + nb" by (rule nat_int)
  then have str: "Number_toString 16 (channel a b) = digits_of 16 (16 * na + nb)"
    unfolding ch Number_toString_def by (simp del: of_nat_add of_nat_mult)
  show ?thesis
  proof (cases "na = 0")
    case True
    then have "digits_of 16 (16 * na + nb) = [digit_char nb]"
      using nb(2) by (simp add: digits_of.simps)
    moreover have "toLowerCase_char a = CHR ''0''" using da True digit_char_0 by simp
    ultimately show ?thesis using str db by simp
  next
    case False
    have "(16 * na + nb) div 16 = na" "(16 * na + nb) mod 16 = nb" using nb(2) by simp_all
    moreover have "\<not> 16 * na + nb < 16" using False by simp
    ultimately have "digits_of 16 (16 * na + nb) = digits_of 16 na @ [digit_char nb]"
      by (subst digits_of.simps) simp
    also have "digits_of 16 na = [digit_char na]" using na(2) by (simp add: digits_of.simps)
    finally show ?thesis using str da db by simp
  qed
qed

lemma rgbToHex_channels:
  assumes "list_all is_hex_digit [a, b, c, d, e, f]"
  shows "rgbToHex (channel a b) (channel c d) (channel e f) = toLowerCase (CHR ''#'' # [a, b, c, d, e, f])"
  using assms padded_hex_channel[of a b] padded_hex_channel[of c d] padded_hex_channel[of e f]
  by (simp add: rgbToHex_def toLowerCase_def toLowerCase_char_hash Let_def)

lemma isValidHex_shape: "isValidHex s \<longleftrightarrow> (\<exists>t. s = CHR ''#'' # t \<and> hex6 t)"
  by (cases s) (auto simp: isValidHex_iff hex6_def)

section \<open>Recording into the history\<close>

lemma slice0_nonneg: "0 \<le> e \<Longrightarrow> slice0 xs e = take (nat e) xs"
  by (simp add: slice0_def Let_def min_def)

lemma recentColors_update_valid:
  "isValidHex c \<Longrightarrow>
     recentColors (updateRecentColors p c st) =
       slice0 (c # filter (\<lambda>e. toLowerCase e \<noteq> toLowerCase c) (recentColors st)) (maxRecentColors p)"
  by (simp add: updateRecentColors_def Let_def)

lemma take_cons_take:
  "\<exists>R'. take n (x # take n A @ R) = take n (x # A @ R')"
proof (cases "length A \<le> n")
  case True
  then show ?thesis by auto
next
  case False
  show ?thesis
  proof (cases n)
    case 0
    then show ?thesis by simp
  next
    case (Suc m)
    with False have "take n (x # take n A @ R) = take n (x # A @ [])" by (simp add: min_def)
    then show ?thesis by blast
  qed
qed

lemma recordAll_snoc: "recordAll p (cs @ [c]) st = updateRecentColors p c (recordAll p cs st)"
  by (simp add: recordAll_def)

lemma update_step:
  assumes v: "isValidHex c" and fresh: "\<forall>a\<in>set A. toLowerCase a \<noteq> toLowerCase c"
    and mx: "0 \<le> maxRecentColors p"
    and prev: "recentColors s = take (nat (maxRecentColors p)) (A @ R)"
  shows "\<exists>R'. recentColors (updateRecentColors p c s) = take (nat (maxRecentColors p)) (c # A @ R')"
proof -
  let ?n = "nat (maxRecentColors p)"
  let ?P = "\<lambda>e. toLowerCase e \<noteq> toLowerCase c"
  have "\<forall>a\<in>set (take ?n A). ?P a" using fresh by (meson in_set_takeD)
  then have keep: "filter ?P (take ?n A) = take ?n A" by (simp add: filter_id_conv)
  have "filter ?P (recentColors s) = take ?n A @ filter ?P (take (?n - length A) R)"
    unfolding prev by (simp add: keep)
  then have "recentColors (updateRecentColors p c s)
      = take ?n (c # take ?n A @ filter ?P (take (?n - length A) R))"
    using v mx by (simp add: recentColors_update_valid slice0_nonneg)
  then show ?thesis using take_cons_take[of ?n c A] by metis
qed

lemma recordAll_prefix:
  assumes mx: "0 \<le> maxRecentColors p"
  shows "list_all isValidHex cs \<Longrightarrow> distinct (map toLowerCase cs) \<Longrightarrow> cs \<noteq> [] \<Longrightarrow>
     \<exists>R. recentColors (recordAll p cs st) = take (nat (maxRecentColors p)) (rev cs @ R)"
proof (induction cs rule: rev_induct)
  case Nil
  then show ?case by simp
next
  case (snoc c cs)
  have v: "isValidHex c" using snoc.prems(1) by simp
  show ?case
  proof (cases "cs = []")
    case True
    then have "recentColors (recordAll p (cs @ [c]) st)
        = take (nat (maxRecentColors p)) (rev (cs @ [c]) @ filter (\<lambda>e. toLowerCase e \<noteq> toLowerCase c) (recentColors st))"
      using v mx by (simp add: recordAll_def recentColors_update_valid slice0_nonneg)
    then show ?thesis by blast
  next
    case False
    from snoc.prems have "list_all isValidHex cs" "distinct (map toLowerCase cs)" by simp_all
    from snoc.IH[OF this False] obtain R where
      R: "recentColors (recordAll p cs st) = take (nat (maxRecentColors p)) (rev cs @ R)" by blast
    have fresh: "\<forall>a\<in>set (rev cs). toLowerCase a \<noteq> toLowerCase c"
      using snoc.prems(2) by (auto simp: image_iff)
    from update_step[OF v fresh mx R] show ?thesis
      by (simp add: recordAll_snoc)
  qed
qed

lemma recordAll_full:
  assumes "0 \<le> maxRecentColors p" and "list_all isValidHex cs" and "distinct (map toLowerCase cs)"
    and "cs \<noteq> []" and "nat (maxRecentColors p) \<le> length cs"
  shows "recentColors (recordAll p cs st) = take (nat (maxRecentColors p)) (rev cs)"
  using recordAll_prefix[OF assms(1-4), of st] assms(5) by auto

lemma update_invariant:
  assumes "recent_invariant (recentColors st) (maxRecentColors p)"
  shows "recent_invariant (recentColors (updateRecentColors p c st)) (maxRecentColors p)"
proof (cases "isValidHex c")
  case False
  then show ?thesis using assms by (simp add: updateRecentColors_def)
next
  case True
  let ?l = "c # filter (\<lambda>e. toLowerCase e \<noteq> toLowerCase c) (recentColors st)"
  have mx: "0 \<le> maxRecentColors p" using assms by (simp add: recent_invariant_def)
  have d: "distinct (map toLowerCase ?l)"
    using assms by (auto simp: recent_invariant_def distinct_map_filter)
  have "distinct (map toLowerCase (take (nat (maxRecentColors p)) ?l))"
    using d by (simp only: take_map[symmetric] distinct_take)
  then show ?thesis using True mx
    by (simp add: recentColors_update_valid slice0_nonneg recent_invariant_def del: take_Cons')
qed





section \<open>Rounding to a double\<close>

lemma bitlen_powi:
  assumes "0 < p"
  shows "2 powi (bitlen p - 1) \<le> (of_int p :: rat)" and "(of_int p :: rat) < 2 powi (bitlen p)"
proof -
  have b1: "1 \<le> bitlen p" using assms bitlen_eq_zero_iff[of p] bitlen_nonneg[of p] by linarith
  from bitlen_bounds[OF assms] have lo: "2 ^ nat (bitlen p - 1) \<le> p" and hi: "p < 2 ^ nat (bitlen p)"
    by simp_all
  have "(of_int (2 ^ nat (bitlen p - 1)) :: rat) \<le> of_int p" using lo by (simp only: of_int_le_iff)
  then show "2 powi (bitlen p - 1) \<le> (of_int p :: rat)"
    using b1 by (simp add: power_int_def)
  have "(of_int p :: rat) < of_int (2 ^ nat (bitlen p))" using hi by (simp only: of_int_less_iff)
  then show "(of_int p :: rat) < 2 powi (bitlen p)"
    using b1 by (simp add: power_int_def)
qed

lemma floor_log2_bounds:
  assumes "0 < x"
  shows "2 powi (floor_log2 x) \<le> x" and "x < 2 powi (floor_log2 x + 1)"
proof -
  obtain p q where pq: "quotient_of x = (p, q)" by (cases "quotient_of x")
  have q: "0 < q" using pq by (rule quotient_of_denom_pos)
  have x: "x = of_int p / of_int q" using pq by (rule quotient_of_div)
  have p: "0 < p" using assms q x by (simp add: zero_less_divide_iff)
  define k where "k = bitlen p - bitlen q"
  note bp = bitlen_powi[OF p] and bq = bitlen_powi[OF q]
  have two: "(2::rat) \<noteq> 0" by simp
  have qpos: "(0::rat) < of_int q" using q by simp
  have up: "x < 2 powi (k + 1)"
  proof -
    have "of_int p < (2::rat) powi (bitlen p)" by (rule bp)
    also have "\<dots> = 2 powi (k + 1) * 2 powi (bitlen q - 1)"
      by (simp add: k_def power_int_add[symmetric])
    also have "\<dots> \<le> 2 powi (k + 1) * of_int q"
      using bq(1) by (simp add: mult_left_mono)
    finally show ?thesis using qpos by (simp add: x pos_divide_less_eq)
  qed
  have lo: "2 powi (k - 1) < x"
  proof -
    have "2 powi (k - 1) * of_int q < 2 powi (k - 1) * (2::rat) powi (bitlen q)"
      using bq(2) by (simp add: mult_strict_left_mono)
    also have "\<dots> = 2 powi (bitlen p - 1)"
      by (simp add: k_def power_int_add[symmetric])
    also have "\<dots> \<le> of_int p" by (rule bp)
    finally show ?thesis using qpos by (simp add: x pos_less_divide_eq)
  qed
  have fl: "floor_log2 x = (if 2 powi k \<le> x then k else k - 1)"
    by (simp add: floor_log2_def pq k_def Let_def)
  show "2 powi (floor_log2 x) \<le> x" using lo by (simp add: fl)
  show "x < 2 powi (floor_log2 x + 1)" using up by (auto simp add: fl)
qed

lemma round_half_even_near:
  "\<bar>of_int (round_half_even m) - m\<bar> \<le> 1 / 2"
proof -
  have a: "of_int \<lfloor>m\<rfloor> \<le> m" and b: "m < of_int \<lfloor>m\<rfloor> + 1" by linarith+
  show ?thesis using a b by (auto simp: round_half_even_def Let_def)
qed

lemma round_half_even_int [simp]: "round_half_even (of_int n) = n"
  by (simp add: round_half_even_def)

lemma round_half_even_numeral [simp]: "round_half_even (numeral k) = numeral k"
  using round_half_even_int[of "numeral k"] by simp

lemma two_powi_pos [simp]: "(0::rat) < 2 powi k"
  by (simp add: power_int_def)

lemma powi_shift:
  "(2::rat) powi (e + 52) = 2 ^ 52 * 2 powi e" "(2::rat) powi (e + 53) = 2 ^ 53 * 2 powi e"
  by (simp_all add: power_int_add)

lemma scaled_range:
  assumes "0 < x"
  defines "e \<equiv> floor_log2 x - 52"
  shows "2 ^ 52 \<le> x / 2 powi e" and "x / 2 powi e < 2 ^ 53"
proof -
  have "floor_log2 x = e + 52" "floor_log2 x + 1 = e + 53" by (simp_all add: e_def)
  then have s: "2 powi (floor_log2 x) = (2::rat) ^ 52 * 2 powi e"
    "2 powi (floor_log2 x + 1) = (2::rat) ^ 53 * 2 powi e"
    by (simp_all only: powi_shift)
  show "2 ^ 52 \<le> x / 2 powi e"
    using floor_log2_bounds(1)[OF assms(1)] unfolding s(1) by (simp add: pos_le_divide_eq)
  show "x / 2 powi e < 2 ^ 53"
    using floor_log2_bounds(2)[OF assms(1)] unfolding s(2) by (simp add: pos_divide_less_eq)
qed

lemma round_double_pos_eq:
  "0 < x \<Longrightarrow> round_double x =
     of_int (round_half_even (x / 2 powi (max (floor_log2 x - 52) (- 1074))))
       * 2 powi (max (floor_log2 x - 52) (- 1074))"
  by (simp add: round_double_def Let_def)

lemma round_double_minus: "round_double (- x) = - round_double x"
  by (simp add: round_double_def Let_def)

lemma round_double_0 [simp]: "round_double 0 = 0"
  by (simp add: round_double_def)

lemma floor_log2_normal:
  assumes "2 powi (- 1022) \<le> x"
  shows "- 1022 \<le> floor_log2 x"
proof (rule ccontr)
  assume "\<not> - 1022 \<le> floor_log2 x"
  then have "floor_log2 x + 1 \<le> - 1022" by simp
  then have "(2::rat) powi (floor_log2 x + 1) \<le> 2 powi (- 1022)"
    by (intro power_int_increasing) simp_all
  moreover have "0 < x" using assms two_powi_pos[of "- 1022"] by linarith
  then have "x < 2 powi (floor_log2 x + 1)" by (rule floor_log2_bounds(2))
  ultimately show False using assms by linarith
qed

lemma floor_log2_subnormal:
  assumes "0 < x" and "x < 2 powi (- 1022)"
  shows "floor_log2 x < - 1022"
proof (rule ccontr)
  assume "\<not> floor_log2 x < - 1022"
  then have "- 1022 \<le> floor_log2 x" by simp
  then have "(2::rat) powi (- 1022) \<le> 2 powi (floor_log2 x)"
    by (intro power_int_increasing) simp_all
  moreover have "2 powi (floor_log2 x) \<le> x" using assms(1) by (rule floor_log2_bounds(1))
  ultimately show False using assms(2) by linarith
qed

lemma eps_powi: "eps = 2 powi (- 53)"
  by (simp add: eps_def power_int_minus_divide)

lemma round_double_quantum:
  assumes x: "0 < x" and e: "max (floor_log2 x - 52) (- 1074) = e"
  shows "\<bar>round_double x - x\<bar> \<le> 1 / 2 * 2 powi e"
proof -
  define m where "m = x / 2 powi e"
  have eq: "round_double x = of_int (round_half_even m) * 2 powi e"
    using x by (simp only: round_double_pos_eq e m_def)
  have xm: "x = m * 2 powi e" by (simp add: m_def)
  have "round_double x - x = (of_int (round_half_even m) - m) * 2 powi e"
    using xm eq by (simp add: algebra_simps)
  then have "\<bar>round_double x - x\<bar> = \<bar>of_int (round_half_even m) - m\<bar> * 2 powi e"
    by (simp add: abs_mult)
  also have "\<dots> \<le> 1 / 2 * 2 powi e"
    by (intro mult_right_mono round_half_even_near) simp
  finally show ?thesis .
qed

text \<open>In the normal range the relative error of a rounding is at most \<open>eps\<close>.\<close>

lemma round_double_error_normal_pos:
  assumes "2 powi (- 1022) \<le> x"
  shows "\<bar>round_double x - x\<bar> \<le> eps * x"
proof -
  have x: "0 < x" using assms two_powi_pos[of "- 1022"] by linarith
  define e where "e = floor_log2 x - 52"
  have E: "max (floor_log2 x - 52) (- 1074) = e"
    using floor_log2_normal[OF assms] by (simp add: e_def)
  have "\<bar>round_double x - x\<bar> \<le> 1 / 2 * 2 powi e" by (rule round_double_quantum[OF x E])
  also have "\<dots> = eps * (2 ^ 52 * 2 powi e)" by (simp add: eps_def)
  also have "\<dots> \<le> eps * (x / 2 powi e * 2 powi e)"
    using scaled_range(1)[OF x] by (intro mult_left_mono mult_right_mono) (simp_all add: e_def eps_def)
  finally show ?thesis by simp
qed

text \<open>Below it the error is at most half of the least positive double.\<close>

lemma round_double_error_subnormal_pos:
  assumes "0 < x" and "x < 2 powi (- 1022)"
  shows "\<bar>round_double x - x\<bar> \<le> eps / 2"
proof -
  have E: "max (floor_log2 x - 52) (- 1074) = - 1074"
    using floor_log2_subnormal[OF assms] by simp
  have "\<bar>round_double x - x\<bar> \<le> 1 / 2 * 2 powi (- 1074)"
    by (rule round_double_quantum[OF assms(1) E])
  also have "\<dots> \<le> 1 / 2 * 2 powi (- 53)"
    by (intro mult_left_mono power_int_increasing) simp_all
  also have "\<dots> = eps / 2" by (simp only: eps_powi)
  finally show ?thesis .
qed

lemma round_double_error_normal:
  assumes "2 powi (- 1022) \<le> \<bar>x\<bar>"
  shows "\<bar>round_double x - x\<bar> \<le> eps * \<bar>x\<bar>"
proof (cases "0 \<le> x")
  case True
  then show ?thesis using assms round_double_error_normal_pos[of x] by simp
next
  case False
  then show ?thesis
    using assms round_double_error_normal_pos[of "- x"]
    by (simp add: round_double_minus abs_minus_commute)
qed

lemma round_double_error:
  "\<bar>round_double x - x\<bar> \<le> eps * \<bar>x\<bar> + eps / 2"
proof -
  have e0: "0 \<le> eps" by (simp add: eps_def)
  have pos: "\<bar>round_double y - y\<bar> \<le> eps * y + eps / 2" if y: "0 < y" for y
  proof (cases "2 powi (- 1022) \<le> y")
    case True
    then show ?thesis using round_double_error_normal_pos[of y] e0 by linarith
  next
    case False
    then have "\<bar>round_double y - y\<bar> \<le> eps / 2"
      using round_double_error_subnormal_pos[of y] y by simp
    moreover have "0 \<le> eps * y" using e0 y by simp
    ultimately show ?thesis by linarith
  qed
  consider "0 < x" | "x = 0" | "x < 0" by linarith
  then show ?thesis
  proof cases
    case 1 then show ?thesis using pos[of x] by simp
  next
    case 2 then show ?thesis using e0 by simp
  next
    case 3
    then show ?thesis using pos[of "- x"] by (simp add: round_double_minus abs_minus_commute)
  qed
qed

subsection \<open>The error of one operation\<close>

lemma eps_pos: "0 < eps" and eps_small: "eps \<le> 1 / 1000000000000000"
  by (simp_all add: eps_def)

lemma round_step:
  assumes "\<bar>a - A\<bar> \<le> e" and "\<bar>a\<bar> + 1 / 2 \<le> B"
  shows "\<bar>round_double a - A\<bar> \<le> e + eps * B"
proof -
  have "\<bar>round_double a - a\<bar> \<le> eps * \<bar>a\<bar> + eps / 2" by (rule round_double_error)
  also have "\<dots> = eps * (\<bar>a\<bar> + 1 / 2)" by (simp add: algebra_simps)
  also have "\<dots> \<le> eps * B" using assms(2) eps_pos by (simp add: mult_left_mono)
  finally show ?thesis using assms(1) by linarith
qed

lemma div_close:
  fixes a A b B ea eb bmin :: rat
  assumes a: "\<bar>a - A\<bar> \<le> ea" and b: "\<bar>b - B\<bar> \<le> eb" and AB: "\<bar>A\<bar> \<le> B" and B: "0 < B"
    and bm: "0 < bmin" "bmin \<le> b"
  shows "\<bar>a / b - A / B\<bar> \<le> (ea + eb) / bmin"
proof -
  have bpos: "0 < b" using bm by linarith
  have split: "a / b - A / B = (a - A) / b + (A / B) * ((B - b) / b)"
    using bpos B by (simp add: field_simps)
  have r1: "\<bar>A / B\<bar> \<le> 1" using AB B by (simp add: abs_divide)
  have t1: "\<bar>(a - A) / b\<bar> \<le> ea / b"
    using a bpos by (simp add: abs_divide divide_right_mono)
  have "\<bar>(B - b) / b\<bar> \<le> eb / b"
    using b bpos by (simp add: abs_divide divide_right_mono abs_minus_commute)
  then have t2: "\<bar>(A / B) * ((B - b) / b)\<bar> \<le> 1 * (eb / b)"
    unfolding abs_mult using r1 by (intro mult_mono) simp_all
  have e0: "0 \<le> ea + eb" using a b by linarith
  have "\<bar>a / b - A / B\<bar> \<le> \<bar>(a - A) / b\<bar> + \<bar>(A / B) * ((B - b) / b)\<bar>"
    unfolding split by (rule abs_triangle_ineq)
  also have "\<dots> \<le> ea / b + eb / b" using t1 t2 by simp
  also have "\<dots> = (ea + eb) / b" by (simp add: add_divide_distrib)
  also have "\<dots> \<le> (ea + eb) / bmin" using e0 bm by (intro divide_left_mono) simp_all
  finally show ?thesis .
qed

lemma fsub_close:
  assumes "\<bar>x - X\<bar> \<le> ex" and "\<bar>y - Y\<bar> \<le> ey" and "\<bar>X - Y\<bar> \<le> 2" and "ex \<le> 1 / 4" and "ey \<le> 1 / 4"
  shows "\<bar>fsub x y - (X - Y)\<bar> \<le> ex + ey + 3 * eps"
proof -
  have "\<bar>(x - y) - (X - Y)\<bar> \<le> ex + ey" using assms by linarith
  moreover have "\<bar>x - y\<bar> + 1 / 2 \<le> 3" using assms by linarith
  ultimately have "\<bar>round_double (x - y) - (X - Y)\<bar> \<le> ex + ey + eps * 3" by (rule round_step)
  then show ?thesis by (simp add: fsub_def)
qed

lemma fadd_close:
  assumes "\<bar>x - X\<bar> \<le> ex" and "\<bar>y - Y\<bar> \<le> ey" and "\<bar>X + Y\<bar> \<le> 7" and "ex \<le> 1 / 4" and "ey \<le> 1 / 4"
  shows "\<bar>fadd x y - (X + Y)\<bar> \<le> ex + ey + 8 * eps"
proof -
  have "\<bar>(x + y) - (X + Y)\<bar> \<le> ex + ey" using assms by linarith
  moreover have "\<bar>x + y\<bar> + 1 / 2 \<le> 8" using assms by linarith
  ultimately have "\<bar>round_double (x + y) - (X + Y)\<bar> \<le> ex + ey + eps * 8" by (rule round_step)
  then show ?thesis by (simp add: fadd_def)
qed

lemma fdiv_const_close:
  assumes "\<bar>x - X\<bar> \<le> e" and "\<bar>X\<bar> \<le> 7" and "e \<le> 1 / 2" and "1 \<le> c"
  shows "\<bar>fdiv x c - X / c\<bar> \<le> e + 8 * eps"
proof -
  have c: "0 < c" using assms(4) by simp
  have "\<bar>x / c - X / c\<bar> = \<bar>x - X\<bar> / c" using c by (simp add: diff_divide_distrib[symmetric] abs_divide)
  also have "\<dots> \<le> \<bar>x - X\<bar>" using assms(4) by (simp add: divide_le_eq mult_le_cancel_left1)
  finally have 1: "\<bar>x / c - X / c\<bar> \<le> e" using assms(1) by simp
  have "\<bar>x / c\<bar> = \<bar>x\<bar> / c" using c by (simp add: abs_divide)
  also have "\<dots> \<le> \<bar>x\<bar>" using assms(4) by (simp add: divide_le_eq mult_le_cancel_left1)
  finally have 2: "\<bar>x / c\<bar> + 1 / 2 \<le> 8" using assms by linarith
  from round_step[OF 1 2] show ?thesis by (simp add: fdiv_def)
qed

lemma fmul_const_close:
  assumes "\<bar>x - X\<bar> \<le> e" and "\<bar>X\<bar> \<le> 2" and "e \<le> 1 / 2" and "0 \<le> c" and "c \<le> 360"
  shows "\<bar>fmul x c - X * c\<bar> \<le> 360 * e + 1080 * eps"
proof -
  have "\<bar>x * c - X * c\<bar> = \<bar>x - X\<bar> * c" using assms(4) by (simp add: left_diff_distrib[symmetric] abs_mult)
  also have "\<dots> \<le> e * 360" using assms by (intro mult_mono) simp_all
  finally have 1: "\<bar>x * c - X * c\<bar> \<le> 360 * e" by simp
  have "\<bar>x\<bar> \<le> 5 / 2" using assms by linarith
  then have "\<bar>x\<bar> * c \<le> 5 / 2 * 360" using assms by (intro mult_mono) simp_all
  then have 2: "\<bar>x * c\<bar> + 1 / 2 \<le> 1080" using assms(4) by (simp add: abs_mult)
  from round_step[OF 1 2] show ?thesis by (simp add: fmul_def)
qed

lemma fdiv_close:
  fixes a A b B :: rat
  assumes a: "\<bar>a - A\<bar> \<le> 5 * eps" and b: "\<bar>b - B\<bar> \<le> 10 * eps" and AB: "\<bar>A\<bar> \<le> B"
    and B: "1 / 255 \<le> B"
  shows "\<bar>fdiv a b - A / B\<bar> \<le> 3842 * eps"
proof -
  have bm: "(0::rat) < 1 / 256" "1 / 256 \<le> b" using b B eps_small by linarith+
  have Bp: "0 < B" using B by linarith
  have 1: "\<bar>a / b - A / B\<bar> \<le> 3840 * eps"
    using div_close[OF a b AB Bp bm] by simp
  have "\<bar>A / B\<bar> \<le> 1" using AB Bp by (simp add: abs_divide)
  then have 2: "\<bar>a / b\<bar> + 1 / 2 \<le> 2" using 1 eps_small by linarith
  from round_step[OF 1 2] show ?thesis by (simp add: fdiv_def)
qed

lemma tolerance: "1400000 * eps \<le> 1 / 1000000000"
  by (simp add: eps_def)

lemma sat_branch:
  fixes d D den Den :: rat
  assumes d: "\<bar>d - D\<bar> \<le> 5 * eps" and den: "\<bar>den - Den\<bar> \<le> 10 * eps"
    and D: "0 \<le> D" "D \<le> Den" and Den: "1 / 255 \<le> Den"
  shows "\<bar>fmul (fdiv d den) 100 - D / Den * 100\<bar> \<le> 1 / 1000000000"
proof -
  have AB: "\<bar>D\<bar> \<le> Den" using D by simp
  have 1: "\<bar>fdiv d den - D / Den\<bar> \<le> 3842 * eps" by (rule fdiv_close[OF d den AB Den])
  have "\<bar>D / Den\<bar> \<le> 1" using AB Den by (simp add: abs_divide)
  then have 2: "\<bar>D / Den\<bar> \<le> 2" by simp
  have 3: "3842 * eps \<le> 1 / 2" using eps_small by simp
  have "\<bar>fmul (fdiv d den) 100 - D / Den * 100\<bar> \<le> 360 * (3842 * eps) + 1080 * eps"
    by (rule fmul_const_close[OF 1 2 3]) simp_all
  then show ?thesis using tolerance eps_pos by linarith
qed

lemma hue_branch:
  fixes x X y Y d D c :: rat
  assumes x: "\<bar>x - X\<bar> \<le> eps" and y: "\<bar>y - Y\<bar> \<le> eps" and d: "\<bar>d - D\<bar> \<le> 5 * eps"
    and XY: "\<bar>X - Y\<bar> \<le> D" and D: "1 / 255 \<le> D" "D \<le> 1" and c: "0 \<le> c" "c \<le> 6"
  shows "\<bar>fmul (fdiv (fadd (fdiv (fsub x y) d) c) 6) 360 - ((X - Y) / D + c) / 6 * 360\<bar> \<le> 1 / 1000000000"
proof -
  have e: "eps \<le> 1 / 4" using eps_small by simp
  have n: "\<bar>fsub x y - (X - Y)\<bar> \<le> 5 * eps"
    using fsub_close[OF x y _ e e] XY D by simp
  have d': "\<bar>d - D\<bar> \<le> 10 * eps" using d eps_pos by linarith
  have t: "\<bar>fdiv (fsub x y) d - (X - Y) / D\<bar> \<le> 3842 * eps"
    by (rule fdiv_close[OF n d' XY D(1)])
  have T: "\<bar>(X - Y) / D\<bar> \<le> 1" using XY D by (simp add: abs_divide)
  have c0: "\<bar>c - c\<bar> \<le> 0" by simp
  have U: "\<bar>(X - Y) / D + c\<bar> \<le> 7" using T c by linarith
  have u: "\<bar>fadd (fdiv (fsub x y) d) c - ((X - Y) / D + c)\<bar> \<le> 3850 * eps"
    using fadd_close[OF t c0 U] eps_small by simp
  have v: "\<bar>fdiv (fadd (fdiv (fsub x y) d) c) 6 - ((X - Y) / D + c) / 6\<bar> \<le> 3858 * eps"
    using fdiv_const_close[OF u U, of 6] eps_small by simp
  have V: "\<bar>((X - Y) / D + c) / 6\<bar> \<le> 2" using U by simp
  have "\<bar>fmul (fdiv (fadd (fdiv (fsub x y) d) c) 6) 360 - ((X - Y) / D + c) / 6 * 360\<bar>
        \<le> 360 * (3858 * eps) + 1080 * eps"
    using fmul_const_close[OF v V, of 360] eps_small by simp
  then show ?thesis using tolerance eps_pos by linarith
qed

lemma light_close:
  fixes mx MX mn MN :: rat
  assumes cx: "\<bar>mx - MX\<bar> \<le> eps" and cn: "\<bar>mn - MN\<bar> \<le> eps"
    and rng: "0 \<le> MN" "MN \<le> MX" "MX \<le> 1"
  shows "\<bar>fadd mx mn - (MX + MN)\<bar> \<le> 10 * eps"
    and "\<bar>fdiv (fadd mx mn) 2 - (MX + MN) / 2\<bar> \<le> 18 * eps"
    and "\<bar>fmul (fdiv (fadd mx mn) 2) 100 - (MX + MN) / 2 * 100\<bar> \<le> 1 / 1000000000"
proof -
  have e: "eps \<le> 1 / 4" using eps_small by simp
  show 1: "\<bar>fadd mx mn - (MX + MN)\<bar> \<le> 10 * eps"
    using fadd_close[OF cx cn _ e e] rng by simp
  have X: "\<bar>MX + MN\<bar> \<le> 7" using rng by simp
  show 2: "\<bar>fdiv (fadd mx mn) 2 - (MX + MN) / 2\<bar> \<le> 18 * eps"
    using fdiv_const_close[OF 1 X, of 2] eps_small by simp
  have L: "\<bar>(MX + MN) / 2\<bar> \<le> 2" using rng by simp
  have "\<bar>fmul (fdiv (fadd mx mn) 2) 100 - (MX + MN) / 2 * 100\<bar> \<le> 360 * (18 * eps) + 1080 * eps"
    using fmul_const_close[OF 2 L, of 100] eps_small by simp
  then show "\<bar>fmul (fdiv (fadd mx mn) 2) 100 - (MX + MN) / 2 * 100\<bar> \<le> 1 / 1000000000"
    using tolerance eps_pos by linarith
qed

lemma diff_close:
  fixes mx MX mn MN :: rat
  assumes cx: "\<bar>mx - MX\<bar> \<le> eps" and cn: "\<bar>mn - MN\<bar> \<le> eps"
    and rng: "0 \<le> MN" "MN \<le> MX" "MX \<le> 1"
  shows "\<bar>fsub mx mn - (MX - MN)\<bar> \<le> 5 * eps"
    and "\<bar>fsub (fsub 2 mx) mn - (2 - MX - MN)\<bar> \<le> 10 * eps"
proof -
  have e: "eps \<le> 1 / 4" using eps_small by simp
  show "\<bar>fsub mx mn - (MX - MN)\<bar> \<le> 5 * eps"
    using fsub_close[OF cx cn _ e e] rng by simp
  have two: "\<bar>(2::rat) - 2\<bar> \<le> 0" by simp
  have 1: "\<bar>fsub 2 mx - (2 - MX)\<bar> \<le> 4 * eps"
    using fsub_close[OF two cx _ _ e] rng by simp
  have e4: "4 * eps \<le> 1 / 4" using eps_small by simp
  have "\<bar>fsub (fsub 2 mx) mn - (2 - MX - MN)\<bar> \<le> 8 * eps"
    using fsub_close[OF 1 cn _ e4 e] rng by simp
  then show "\<bar>fsub (fsub 2 mx) mn - (2 - MX - MN)\<bar> \<le> 10 * eps" using eps_pos by linarith
qed

subsection \<open>The channels\<close>

lemma Math_round_nearest:
  "of_int (Math_round x) - 1 / 2 \<le> x \<and> x < of_int (Math_round x) + 1 / 2"
proof -
  have "of_int \<lfloor>x + 1 / 2\<rfloor> \<le> x + 1 / 2" by (rule of_int_floor_le)
  moreover have "x + 1 / 2 < of_int \<lfloor>x + 1 / 2\<rfloor> + 1" using floor_correct[of "x + 1 / 2"] by simp
  ultimately show ?thesis unfolding Math_round_def by linarith
qed

lemma Math_round_0: "Math_round 0 = 0"
  unfolding Math_round_def by (rule floor_unique) simp_all

lemma rounds_Math_round:
  assumes "\<bar>x - X\<bar> \<le> 1 / 1000000000"
  shows "rounds (Math_round x) X"
  using assms Math_round_nearest[of x] unfolding rounds_def by linarith

lemma chan_close:
  assumes "0 \<le> k" and "k \<le> 255"
  shows "\<bar>fdiv (of_int k) 255 - of_int k / 255\<bar> \<le> eps"
proof (cases "k = 0")
  case True
  then show ?thesis using eps_pos by (simp add: fdiv_def)
next
  case False
  then have "1 \<le> k" using assms(1) by simp
  then have "(of_int 1 :: rat) \<le> of_int k" by (simp only: of_int_le_iff)
  then have lo: "(1 :: rat) / 255 \<le> of_int k / 255" by (simp add: divide_right_mono)
  have "(2::rat) powi (- 1022) \<le> 2 powi (- 8)" by (intro power_int_increasing) simp_all
  also have "\<dots> \<le> 1 / 255" by (simp add: power_int_minus_divide)
  finally have n: "2 powi (- 1022) \<le> \<bar>(of_int k :: rat) / 255\<bar>" using lo by simp
  have "\<bar>(of_int k / 255 :: rat)\<bar> \<le> 1" using assms by simp
  then have "eps * \<bar>(of_int k / 255 :: rat)\<bar> \<le> eps * 1"
    using eps_pos by (intro mult_left_mono) simp_all
  then show ?thesis using round_double_error_normal[OF n] by (simp add: fdiv_def)
qed

lemma chan_less:
  assumes "0 \<le> i" and "i < j" and "j \<le> 255"
  shows "fdiv (of_int i) 255 < fdiv (of_int j) 255"
proof -
  have "i + 1 \<le> j" using assms by simp
  then have "(of_int (i + 1) :: rat) \<le> of_int j" by (simp only: of_int_le_iff)
  then have "(of_int i :: rat) / 255 + 1 / 255 \<le> of_int j / 255" by (simp add: field_simps)
  moreover have "\<bar>fdiv (of_int i) 255 - of_int i / 255\<bar> \<le> eps"
    using assms by (intro chan_close) simp_all
  moreover have "\<bar>fdiv (of_int j) 255 - of_int j / 255\<bar> \<le> eps"
    using assms by (intro chan_close) simp_all
  ultimately show ?thesis using eps_small by linarith
qed

lemma chan_less_iff:
  assumes "0 \<le> i" "i \<le> 255" "0 \<le> j" "j \<le> 255"
  shows "fdiv (of_int i) 255 < fdiv (of_int j) 255 \<longleftrightarrow> i < j"
    and "fdiv (of_int i) 255 = fdiv (of_int j) 255 \<longleftrightarrow> i = j"
proof -
  consider "i < j" | "i = j" | "j < i" by linarith
  then show "fdiv (of_int i) 255 < fdiv (of_int j) 255 \<longleftrightarrow> i < j"
    using chan_less[of i j] chan_less[of j i] assms by cases auto
  consider "i < j" | "i = j" | "j < i" by linarith
  then show "fdiv (of_int i) 255 = fdiv (of_int j) 255 \<longleftrightarrow> i = j"
    using chan_less[of i j] chan_less[of j i] assms by cases auto
qed

lemma chan_max:
  assumes "0 \<le> i" "i \<le> 255" "0 \<le> j" "j \<le> 255"
  shows "max (fdiv (of_int i) 255) (fdiv (of_int j) 255) = fdiv (of_int (max i j)) 255"
    and "min (fdiv (of_int i) 255) (fdiv (of_int j) 255) = fdiv (of_int (min i j)) 255"
  using chan_less_iff[OF assms] chan_less_iff[OF assms(3,4) assms(1,2)]
  by (auto simp: max_def min_def)

lemma exact_max:
  "max (of_int i / 255 :: rat) (of_int j / 255) = of_int (max i j) / 255"
  "min (of_int i / 255 :: rat) (of_int j / 255) = of_int (min i j) / 255"
  by (auto simp: max_def min_def divide_le_cancel)

section \<open>\<^verbatim>\<open>hexToHsl\<close> against the exact transform\<close>

lemma hexToHsl_close:
  assumes rgb: "hexToRgb hex = Some c"
    and rb: "0 \<le> rgb_r c" "rgb_r c \<le> 255"
    and gb: "0 \<le> rgb_g c" "rgb_g c \<le> 255"
    and bb: "0 \<le> rgb_b c" "rgb_b c \<le> 255"
  shows "\<exists>k. hexToHsl hex = Some k
           \<and> rounds (hsl_h k) (hue_spec c)
           \<and> rounds (hsl_s k) (saturation_spec c)
           \<and> rounds (hsl_l k) (lightness_spec c)
           \<and> (max (rgb_r c) (max (rgb_g c) (rgb_b c)) = min (rgb_r c) (min (rgb_g c) (rgb_b c))
                \<longrightarrow> hsl_h k = 0 \<and> hsl_s k = 0)"
proof -
  define kr kg kb where "kr = rgb_r c" and "kg = rgb_g c" and "kb = rgb_b c"
  define kx kn where "kx = max kr (max kg kb)" and "kn = min kr (min kg kb)"
  have kr: "0 \<le> kr" "kr \<le> 255" and kg: "0 \<le> kg" "kg \<le> 255" and kb: "0 \<le> kb" "kb \<le> 255"
    using rb gb bb by (simp_all add: kr_def kg_def kb_def)
  have kx: "0 \<le> kx" "kx \<le> 255" and kn: "0 \<le> kn" "kn \<le> 255" and knx: "kn \<le> kx"
    using kr kg kb by (auto simp: kx_def kn_def)
  have kbetween: "kn \<le> kr" "kr \<le> kx" "kn \<le> kg" "kg \<le> kx" "kn \<le> kb" "kb \<le> kx"
    by (auto simp: kx_def kn_def)
  \<comment> \<open>the values of the code\<close>
  define r g b where "r = fdiv (of_int kr) 255" and "g = fdiv (of_int kg) 255"
    and "b = fdiv (of_int kb) 255"
  define mx mn where "mx = max r (max g b)" and "mn = min r (min g b)"
  define l where "l = fdiv (fadd mx mn) 2"
  define d where "d = fsub mx mn"
  define s where "s = (if mx \<noteq> mn
                    then (if l > 1 / 2 then fdiv d (fsub (fsub 2 mx) mn) else fdiv d (fadd mx mn))
                    else 0)"
  define h where "h = (if mx \<noteq> mn
                    then (if mx = r then fdiv (fadd (fdiv (fsub g b) d) (if g < b then 6 else 0)) 6
                          else if mx = g then fdiv (fadd (fdiv (fsub b r) d) 2) 6
                          else if mx = b then fdiv (fadd (fdiv (fsub r g) d) 4) 6
                          else 0)
                    else 0)"
  have eq: "hexToHsl hex = Some \<lparr>hsl_h = Math_round (fmul h 360), hsl_s = Math_round (fmul s 100),
                                  hsl_l = Math_round (fmul l 100)\<rparr>"
    unfolding hexToHsl_def h_def s_def l_def d_def mx_def mn_def r_def g_def b_def kr_def kg_def kb_def
    by (simp only: rgb option.case Let_def)
  \<comment> \<open>the exact values\<close>
  define R G B :: rat where "R = of_int kr / 255" and "G = of_int kg / 255" and "B = of_int kb / 255"
  define MX MN where "MX = max R (max G B)" and "MN = min R (min G B)"
  have MX: "MX = of_int kx / 255" and MN: "MN = of_int kn / 255"
    by (simp_all add: MX_def MN_def R_def G_def B_def kx_def kn_def exact_max)
  have mx: "mx = fdiv (of_int kx) 255" and mn: "mn = fdiv (of_int kn) 255"
    using kr kg kb by (simp_all add: mx_def mn_def r_def g_def b_def kx_def kn_def chan_max)
  have cr: "\<bar>r - R\<bar> \<le> eps" and cg: "\<bar>g - G\<bar> \<le> eps" and cb: "\<bar>b - B\<bar> \<le> eps"
    using kr kg kb by (simp_all add: r_def g_def b_def R_def G_def B_def chan_close)
  have cx: "\<bar>mx - MX\<bar> \<le> eps" and cn: "\<bar>mn - MN\<bar> \<le> eps"
    using kx kn by (simp_all add: mx mn MX MN chan_close)
  have rng: "0 \<le> MN" "MN \<le> MX" "MX \<le> 1"
    using kx kn knx by (simp_all add: MX MN divide_right_mono)
  have between: "MN \<le> R" "R \<le> MX" "MN \<le> G" "G \<le> MX" "MN \<le> B" "B \<le> MX"
    by (auto simp: MX_def MN_def)
  \<comment> \<open>lightness\<close>
  have light: "rounds (Math_round (fmul l 100)) (lightness_spec c)"
  proof -
    have v: "lightness_spec c = (MX + MN) / 2 * 100"
      unfolding lightness_spec_def Let_def MX_def MN_def R_def G_def B_def kr_def kg_def kb_def ..
    have "\<bar>fmul l 100 - lightness_spec c\<bar> \<le> 1 / 1000000000"
      unfolding v l_def by (rule light_close(3)[OF cx cn rng])
    then show ?thesis by (rule rounds_Math_round)
  qed
  show ?thesis
  proof (cases "kx = kn")
    case True
    then have e: "mx = mn" "MX = MN" by (simp_all add: mx mn MX MN)
    have "hue_spec c = 0" "saturation_spec c = 0"
      using e(2) by (simp_all add: hue_spec_def saturation_spec_def Let_def MX_def MN_def R_def G_def B_def
          kr_def kg_def kb_def)
    moreover have "h = 0" "s = 0" using e(1) by (simp_all add: h_def s_def)
    moreover have "rounds 0 0" by (simp add: rounds_def)
    ultimately show ?thesis using eq light by (simp add: fmul_def Math_round_0)
  next
    case False
    then have lt: "kn < kx" using knx by simp
    have ne: "mx \<noteq> mn" using chan_less[OF kn(1) lt kx(2)] by (simp add: mx mn)
    have "(of_int (kn + 1) :: rat) \<le> of_int kx" using lt by (simp only: of_int_le_iff)
    then have gap: "1 / 255 \<le> MX - MN" by (simp add: MX MN field_simps)
    then have NE: "MX \<noteq> MN" by auto
    have cd: "\<bar>d - (MX - MN)\<bar> \<le> 5 * eps"
      using diff_close(1)[OF cx cn rng] by (simp add: d_def)
    \<comment> \<open>saturation\<close>
    have sat: "rounds (Math_round (fmul s 100)) (saturation_spec c)"
    proof -
      have spec: "saturation_spec c =
          (if (MX + MN) / 2 > 1 / 2 then (MX - MN) / (2 - MX - MN) * 100
           else (MX - MN) / (MX + MN) * 100)"
        using NE by (simp add: saturation_spec_def Let_def MX_def MN_def R_def G_def B_def
            kr_def kg_def kb_def)
      have cl: "\<bar>l - (MX + MN) / 2\<bar> \<le> 18 * eps"
        using light_close(2)[OF cx cn rng] by (simp add: l_def)
      have sum: "MX + MN = of_int (kx + kn) / 255" by (simp add: MX MN add_divide_distrib)
      show ?thesis
      proof (cases "l > 1 / 2")
        case True
        have "255 \<le> kx + kn"
        proof (rule ccontr)
          assume "\<not> 255 \<le> kx + kn"
          then have "kx + kn \<le> 254" by simp
          then have "(of_int (kx + kn) :: rat) \<le> of_int 254" by (simp only: of_int_le_iff)
          then have "MX + MN \<le> 254 / 255" by (simp add: sum)
          then have "(MX + MN) / 2 \<le> 127 / 255" by simp
          then show False using cl True eps_small by linarith
        qed
        then have "(of_int 255 :: rat) \<le> of_int (kx + kn)" by (simp only: of_int_le_iff)
        then have ge1: "1 \<le> MX + MN" by (simp add: sum)
        have val: "saturation_spec c = (MX - MN) / (2 - MX - MN) * 100"
        proof (cases "MX + MN = 1")
          case True
          then have a: "2 - MX - MN = 1" by linarith
          have b: "\<not> (MX + MN) / 2 > 1 / 2" using True by simp
          show ?thesis unfolding spec a using b True by simp
        next
          case False
          then show ?thesis using ge1 by (simp add: spec)
        qed
        have den: "\<bar>fsub (fsub 2 mx) mn - (2 - MX - MN)\<bar> \<le> 10 * eps"
          by (rule diff_close(2)[OF cx cn rng])
        have D: "0 \<le> MX - MN" "MX - MN \<le> 2 - MX - MN" "1 / 255 \<le> 2 - MX - MN"
          using rng gap by linarith+
        have "\<bar>fmul (fdiv d (fsub (fsub 2 mx) mn)) 100 - (MX - MN) / (2 - MX - MN) * 100\<bar>
              \<le> 1 / 1000000000"
          by (rule sat_branch[OF cd den D])
        then show ?thesis using True ne by (simp add: s_def val rounds_Math_round)
      next
        case False
        have "kx + kn \<le> 255"
        proof (rule ccontr)
          assume "\<not> kx + kn \<le> 255"
          then have "256 \<le> kx + kn" by simp
          then have "(of_int 256 :: rat) \<le> of_int (kx + kn)" by (simp only: of_int_le_iff)
          then have "256 / 255 \<le> MX + MN" by (simp add: sum)
          then have "128 / 255 \<le> (MX + MN) / 2" by simp
          then show False using cl False eps_small by linarith
        qed
        then have "(of_int (kx + kn) :: rat) \<le> of_int 255" by (simp only: of_int_le_iff)
        then have le1: "MX + MN \<le> 1" by (simp add: sum)
        have val: "saturation_spec c = (MX - MN) / (MX + MN) * 100"
          using le1 by (simp add: spec)
        have den: "\<bar>fadd mx mn - (MX + MN)\<bar> \<le> 10 * eps"
          by (rule light_close(1)[OF cx cn rng])
        have D: "0 \<le> MX - MN" "MX - MN \<le> MX + MN" "1 / 255 \<le> MX + MN"
          using rng gap by linarith+
        have "\<bar>fmul (fdiv d (fadd mx mn)) 100 - (MX - MN) / (MX + MN) * 100\<bar> \<le> 1 / 1000000000"
          by (rule sat_branch[OF cd den D])
        then show ?thesis using False ne by (simp add: s_def val rounds_Math_round)
      qed
    qed
    \<comment> \<open>hue\<close>
    have hue: "rounds (Math_round (fmul h 360)) (hue_spec c)"
    proof -
      have D1: "MX - MN \<le> 1" using rng by linarith
      have tests: "mx = r \<longleftrightarrow> kx = kr" "mx = g \<longleftrightarrow> kx = kg" "mx = b \<longleftrightarrow> kx = kb"
        "g < b \<longleftrightarrow> kg < kb"
        using chan_less_iff[OF kx kr] chan_less_iff[OF kx kg] chan_less_iff[OF kx kb]
          chan_less_iff[OF kg kb]
        by (simp_all add: mx r_def g_def b_def)
      have TESTS: "MX = R \<longleftrightarrow> kx = kr" "MX = G \<longleftrightarrow> kx = kg" "G < B \<longleftrightarrow> kg < kb"
        by (simp_all add: MX R_def G_def B_def divide_less_cancel)
      have spec0: "hue_spec c =
          (if MX = MN then 0
           else if MX = R then ((G - B) / (MX - MN) + (if G < B then 6 else 0)) / 6 * 360
           else if MX = G then ((B - R) / (MX - MN) + 2) / 6 * 360
           else ((R - G) / (MX - MN) + 4) / 6 * 360)"
        unfolding hue_spec_def Let_def MX_def MN_def R_def G_def B_def kr_def kg_def kb_def ..
      have F: "(MX = MN) = False" using NE by simp
      have spec: "hue_spec c =
          (if MX = R then ((G - B) / (MX - MN) + (if G < B then 6 else 0)) / 6 * 360
           else if MX = G then ((B - R) / (MX - MN) + 2) / 6 * 360
           else ((R - G) / (MX - MN) + 4) / 6 * 360)"
        unfolding spec0 F by (simp only: if_False)
      have "kx = kr \<or> kx = kg \<or> kx = kb" unfolding kx_def by linarith
      then consider "kx = kr" | "kx \<noteq> kr" "kx = kg" | "kx \<noteq> kr" "kx \<noteq> kg" "kx = kb"
        by blast
      then show ?thesis
      proof cases
        case 1
        define cc :: rat where "cc = (if kg < kb then 6 else 0)"
        have c: "0 \<le> cc" "cc \<le> 6" by (simp_all add: cc_def)
        have XY: "\<bar>G - B\<bar> \<le> MX - MN" using between by linarith
        have a: "\<bar>fmul (fdiv (fadd (fdiv (fsub g b) d) cc) 6) 360 - ((G - B) / (MX - MN) + cc) / 6 * 360\<bar>
              \<le> 1 / 1000000000"
          by (rule hue_branch[OF cg cb cd XY gap D1 c])
        have hh: "h = fdiv (fadd (fdiv (fsub g b) d) cc) 6"
          using ne 1 tests by (simp add: h_def cc_def)
        have vv: "hue_spec c = ((G - B) / (MX - MN) + cc) / 6 * 360"
          using 1 TESTS by (simp add: spec cc_def)
        show ?thesis unfolding hh vv by (rule rounds_Math_round[OF a])
      next
        case 2
        have c: "(0::rat) \<le> 2" "(2::rat) \<le> 6" by simp_all
        have XY: "\<bar>B - R\<bar> \<le> MX - MN" using between by linarith
        have a: "\<bar>fmul (fdiv (fadd (fdiv (fsub b r) d) 2) 6) 360 - ((B - R) / (MX - MN) + 2) / 6 * 360\<bar>
              \<le> 1 / 1000000000"
          by (rule hue_branch[OF cb cr cd XY gap D1 c])
        have hh: "h = fdiv (fadd (fdiv (fsub b r) d) 2) 6"
          using ne 2 tests by (simp add: h_def)
        have vv: "hue_spec c = ((B - R) / (MX - MN) + 2) / 6 * 360"
          using 2 TESTS by (simp add: spec)
        show ?thesis unfolding hh vv by (rule rounds_Math_round[OF a])
      next
        case 3
        have c: "(0::rat) \<le> 4" "(4::rat) \<le> 6" by simp_all
        have XY: "\<bar>R - G\<bar> \<le> MX - MN" using between by linarith
        have a: "\<bar>fmul (fdiv (fadd (fdiv (fsub r g) d) 4) 6) 360 - ((R - G) / (MX - MN) + 4) / 6 * 360\<bar>
              \<le> 1 / 1000000000"
          by (rule hue_branch[OF cr cg cd XY gap D1 c])
        have hh: "h = fdiv (fadd (fdiv (fsub r g) d) 4) 6"
          using ne 3 tests by (simp add: h_def)
        have vv: "hue_spec c = ((R - G) / (MX - MN) + 4) / 6 * 360"
          using 3 TESTS by (simp add: spec)
        show ?thesis unfolding hh vv by (rule rounds_Math_round[OF a])
      qed
    qed
    have "max (rgb_r c) (max (rgb_g c) (rgb_b c)) \<noteq> min (rgb_r c) (min (rgb_g c) (rgb_b c))"
      using False by (simp add: kx_def kn_def kr_def kg_def kb_def)
    then show ?thesis using eq light sat hue by simp
  qed
qed

lemma ratio_bounds:
  fixes x y d :: rat
  assumes "0 < d" and "x - y \<le> d" and "y - x \<le> d"
  shows "- 1 \<le> (x - y) / d" and "(x - y) / d \<le> 1"
  using assms by (simp_all add: field_simps)

lemma spec_ranges:
  assumes rb: "0 \<le> rgb_r c" "rgb_r c \<le> 255"
    and gb: "0 \<le> rgb_g c" "rgb_g c \<le> 255"
    and bb: "0 \<le> rgb_b c" "rgb_b c \<le> 255"
  shows "0 \<le> hue_spec c" and "hue_spec c < 360"
    and "0 \<le> saturation_spec c" and "saturation_spec c \<le> 100"
    and "0 \<le> lightness_spec c" and "lightness_spec c \<le> 100"
proof -
  define r g b :: rat where "r = of_int (rgb_r c) / 255" and "g = of_int (rgb_g c) / 255"
    and "b = of_int (rgb_b c) / 255"
  define mx mn where "mx = max r (max g b)" and "mn = min r (min g b)"
  define d where "d = mx - mn"
  have r01: "0 \<le> r" "r \<le> 1" using rb by (simp_all add: r_def)
  have g01: "0 \<le> g" "g \<le> 1" using gb by (simp_all add: g_def)
  have b01: "0 \<le> b" "b \<le> 1" using bb by (simp_all add: b_def)
  have mn0: "0 \<le> mn" and mx1: "mx \<le> 1" and mnmx: "mn \<le> mx"
    using r01 g01 b01 by (auto simp: mx_def mn_def)
  have rng: "mn \<le> r" "mn \<le> g" "mn \<le> b" "r \<le> mx" "g \<le> mx" "b \<le> mx"
    unfolding mx_def mn_def by auto
  have L: "lightness_spec c = (mx + mn) / 2 * 100"
    unfolding lightness_spec_def Let_def mx_def mn_def r_def g_def b_def ..
  have S: "saturation_spec c =
      (if mx = mn then 0
       else if (mx + mn) / 2 > 1 / 2 then (mx - mn) / (2 - mx - mn) * 100
       else (mx - mn) / (mx + mn) * 100)"
    unfolding saturation_spec_def Let_def mx_def mn_def r_def g_def b_def ..
  have H: "hue_spec c =
      (if mx = mn then 0
       else if mx = r then ((g - b) / d + (if g < b then 6 else 0)) / 6 * 360
       else if mx = g then ((b - r) / d + 2) / 6 * 360
       else ((r - g) / d + 4) / 6 * 360)"
    unfolding hue_spec_def Let_def d_def mx_def mn_def r_def g_def b_def ..
  show "0 \<le> lightness_spec c" "lightness_spec c \<le> 100"
    using mn0 mx1 mnmx by (simp_all add: L)
  show "0 \<le> saturation_spec c" "saturation_spec c \<le> 100"
  proof -
    have "0 \<le> saturation_spec c \<and> saturation_spec c \<le> 100"
    proof (cases "mx = mn")
      case True
      then show ?thesis by (simp add: S)
    next
      case False
      then have lt: "mn < mx" using mnmx by simp
      have p1: "0 < 2 - mx - mn" and p2: "0 < mx + mn" using lt mn0 mx1 by linarith+
      have a: "0 \<le> (mx - mn) / (2 - mx - mn)" "(mx - mn) / (2 - mx - mn) \<le> 1"
        using p1 lt mx1 by (simp_all add: field_simps)
      have b: "0 \<le> (mx - mn) / (mx + mn)" "(mx - mn) / (mx + mn) \<le> 1"
        using p2 lt mn0 by (simp_all add: field_simps)
      have F: "(mx = mn) = False" using False by simp
      have h100: "0 \<le> t * 100 \<and> t * 100 \<le> 100" if "0 \<le> t" "t \<le> 1" for t :: rat
        using that by simp
      show ?thesis
      proof (cases "(mx + mn) / 2 > 1 / 2")
        case True
        have "saturation_spec c = (mx - mn) / (2 - mx - mn) * 100"
          unfolding S F using True by (simp only: if_False if_True)
        then show ?thesis using h100[OF a] by simp
      next
        case False
        have "saturation_spec c = (mx - mn) / (mx + mn) * 100"
          unfolding S F using False by (simp only: if_False)
        then show ?thesis using h100[OF b] by simp
      qed
    qed
    then show "0 \<le> saturation_spec c" "saturation_spec c \<le> 100" by simp_all
  qed
  show "0 \<le> hue_spec c" "hue_spec c < 360"
  proof -
    have "0 \<le> hue_spec c \<and> hue_spec c < 360"
    proof (cases "mx = mn")
      case True
      then show ?thesis by (simp add: H)
    next
      case False
      then have d: "0 < d" using mnmx by (simp add: d_def)
      have gb: "- 1 \<le> (g - b) / d" "(g - b) / d \<le> 1"
        using ratio_bounds[OF d, of g b] rng unfolding d_def by auto
      have br: "- 1 \<le> (b - r) / d" "(b - r) / d \<le> 1"
        using ratio_bounds[OF d, of b r] rng unfolding d_def by auto
      have rg: "- 1 \<le> (r - g) / d" "(r - g) / d \<le> 1"
        using ratio_bounds[OF d, of r g] rng unfolding d_def by auto
      have neg: "(g - b) / d < 0" if "g < b" using that d by (simp add: field_simps)
      have pos: "0 \<le> (g - b) / d" if "\<not> g < b" using that d by simp
      define hh where "hh = (if mx = r then ((g - b) / d + (if g < b then 6 else 0)) / 6
                             else if mx = g then ((b - r) / d + 2) / 6
                             else ((r - g) / d + 4) / 6)"
      have hh: "0 \<le> hh \<and> hh < 1" unfolding hh_def using gb br rg pos neg by auto
      have "hue_spec c = hh * 360" unfolding H hh_def using False by simp
      then show ?thesis using hh by simp
    qed
    then show "0 \<le> hue_spec c" "hue_spec c < 360" by simp_all
  qed
qed

lemma rounds_range:
  assumes "rounds k x" and "0 \<le> x" and "x \<le> of_int N"
  shows "0 \<le> k" and "k \<le> N"
proof -
  have a: "\<bar>of_int k - x\<bar> \<le> 1 / 2 + 1 / 1000000000" using assms(1) by (simp only: rounds_def)
  have "(- 1 :: rat) < of_int k" using a assms(2) by linarith
  then have "(of_int (- 1) :: rat) < of_int k" by simp
  then have "- 1 < k" by (simp only: of_int_less_iff)
  then show "0 \<le> k" by simp
  have "(of_int k :: rat) < of_int N + 1" using a assms(3) by linarith
  then have "(of_int k :: rat) < of_int (N + 1)" by simp
  then have "k < N + 1" by (simp only: of_int_less_iff)
  then show "k \<le> N" by simp
qed

lemma hexToHsl_valid:
  assumes hx: "list_all is_hex_digit [a, b, c, d, e, f]"
  defines "rgb \<equiv> \<lparr>rgb_r = channel a b, rgb_g = channel c d, rgb_b = channel e f\<rparr>"
  shows "\<exists>k. hexToHsl (CHR ''#'' # [a, b, c, d, e, f]) = Some k
           \<and> 0 \<le> hsl_h k \<and> hsl_h k \<le> 360
           \<and> 0 \<le> hsl_s k \<and> hsl_s k \<le> 100
           \<and> 0 \<le> hsl_l k \<and> hsl_l k \<le> 100
           \<and> rounds (hsl_h k) (hue_spec rgb)
           \<and> rounds (hsl_s k) (saturation_spec rgb)
           \<and> rounds (hsl_l k) (lightness_spec rgb)
           \<and> (max (channel a b) (max (channel c d) (channel e f))
                 = min (channel a b) (min (channel c d) (channel e f))
                \<longrightarrow> hsl_h k = 0 \<and> hsl_s k = 0)"
proof -
  have p: "hexToRgb (CHR ''#'' # [a, b, c, d, e, f]) = Some rgb"
    using hexToRgb_hex6(2)[OF hx] by (simp add: rgb_def)
  have bounds: "0 \<le> rgb_r rgb" "rgb_r rgb \<le> 255" "0 \<le> rgb_g rgb" "rgb_g rgb \<le> 255"
    "0 \<le> rgb_b rgb" "rgb_b rgb \<le> 255"
    using hx channel_bounds[of a b] channel_bounds[of c d] channel_bounds[of e f]
    by (simp_all add: rgb_def)
  from hexToHsl_close[OF p bounds] obtain k where k: "hexToHsl (CHR ''#'' # [a, b, c, d, e, f]) = Some k"
    "rounds (hsl_h k) (hue_spec rgb)" "rounds (hsl_s k) (saturation_spec rgb)"
    "rounds (hsl_l k) (lightness_spec rgb)"
    "max (rgb_r rgb) (max (rgb_g rgb) (rgb_b rgb)) = min (rgb_r rgb) (min (rgb_g rgb) (rgb_b rgb))
       \<longrightarrow> hsl_h k = 0 \<and> hsl_s k = 0"
    by blast
  note sr = spec_ranges[OF bounds]
  have h: "0 \<le> hsl_h k" "hsl_h k \<le> 360"
    using rounds_range[OF k(2) sr(1), of 360] sr(2) by simp_all
  have s: "0 \<le> hsl_s k" "hsl_s k \<le> 100"
    using rounds_range[OF k(3) sr(3), of 100] sr(4) by simp_all
  have l: "0 \<le> hsl_l k" "hsl_l k \<le> 100"
    using rounds_range[OF k(4) sr(5), of 100] sr(6) by simp_all
  show ?thesis using k h s l by (simp add: rgb_def)
qed

text \<open>Every division of \<^verbatim>\<open>hexToHsl\<close> is by a positive number.\<close>

lemma hexToHsl_divisors:
  fixes kr kg kb :: int
  assumes kr: "0 \<le> kr" "kr \<le> 255" and kg: "0 \<le> kg" "kg \<le> 255" and kb: "0 \<le> kb" "kb \<le> 255"
    and ne: "max kr (max kg kb) \<noteq> min kr (min kg kb)"
  defines "mx \<equiv> max (fdiv (of_int kr) 255) (max (fdiv (of_int kg) 255) (fdiv (of_int kb) 255))"
    and "mn \<equiv> min (fdiv (of_int kr) 255) (min (fdiv (of_int kg) 255) (fdiv (of_int kb) 255))"
  shows "0 < fsub mx mn" and "0 < fadd mx mn" and "0 < fsub (fsub 2 mx) mn"
proof -
  define kx kn where "kx = max kr (max kg kb)" and "kn = min kr (min kg kb)"
  have kx: "0 \<le> kx" "kx \<le> 255" and kn: "0 \<le> kn" "kn \<le> 255" and lt: "kn < kx"
    using kr kg kb ne by (auto simp: kx_def kn_def)
  define MX MN :: rat where "MX = of_int kx / 255" and "MN = of_int kn / 255"
  have mx: "mx = fdiv (of_int kx) 255" and mn: "mn = fdiv (of_int kn) 255"
    using kr kg kb by (simp_all add: mx_def mn_def kx_def kn_def chan_max)
  have cx: "\<bar>mx - MX\<bar> \<le> eps" and cn: "\<bar>mn - MN\<bar> \<le> eps"
    using kx kn by (simp_all add: mx mn MX_def MN_def chan_close)
  have rng: "0 \<le> MN" "MN \<le> MX" "MX \<le> 1"
    using kx kn lt by (simp_all add: MX_def MN_def divide_right_mono)
  have "(of_int (kn + 1) :: rat) \<le> of_int kx" using lt by (simp only: of_int_le_iff)
  then have gap: "1 / 255 \<le> MX - MN" by (simp add: MX_def MN_def field_simps)
  show "0 < fsub mx mn"
    using diff_close(1)[OF cx cn rng] gap eps_small by linarith
  show "0 < fadd mx mn"
    using light_close(1)[OF cx cn rng] gap rng eps_small by linarith
  show "0 < fsub (fsub 2 mx) mn"
    using diff_close(2)[OF cx cn rng] gap rng eps_small by linarith
qed

section \<open>Decimal numerals\<close>

lemma digit_char_table:
  "list_all (\<lambda>n. digit_char n \<in> set ''0123456789'' \<and> (of_char (digit_char n) :: int) - 48 = int n
                 \<and> (digit_char n = CHR ''0'' \<longrightarrow> n = 0))
            [0, 1, 2, 3, 4, 5, 6, 7, 8, 9]"
  by code_simp

lemma digit_char_facts:
  assumes "n < 10"
  shows "digit_char n \<in> set ''0123456789''" and "(of_char (digit_char n) :: int) - 48 = int n"
    and "digit_char n = CHR ''0'' \<Longrightarrow> n = 0"
proof -
  have "n \<in> set [0, 1, 2, 3, 4, 5, 6, 7, 8, 9]" using assms by (simp; arith)
  then have "digit_char n \<in> set ''0123456789'' \<and> (of_char (digit_char n) :: int) - 48 = int n
                 \<and> (digit_char n = CHR ''0'' \<longrightarrow> n = 0)"
    using digit_char_table unfolding list_all_iff by blast
  then show "digit_char n \<in> set ''0123456789''" and "(of_char (digit_char n) :: int) - 48 = int n"
    and "digit_char n = CHR ''0'' \<Longrightarrow> n = 0" by blast+
qed

lemma decimal_value_snoc: "decimal_value (s @ [ch]) = 10 * decimal_value s + (of_char ch - 48)"
  by (simp add: decimal_value_def)

lemma digits_of_decimal: "is_decimal (digits_of 10 n) (int n)"
proof (induction n rule: less_induct)
  case (less n)
  show ?case
  proof (cases "n < 10")
    case True
    have d: "digits_of 10 n = [digit_char n]" using True by (simp add: digits_of.simps)
    show ?thesis
      unfolding d is_decimal_def using digit_char_facts[OF True]
      by (simp add: decimal_value_def del: set_simps)
  next
    case False
    define q where "q = n div 10"
    define m where "m = n mod 10"
    have q: "q < n" "0 < q" and m: "m < 10" and n: "n = 10 * q + m"
      using False by (simp_all add: q_def m_def)
    have d: "digits_of 10 n = digits_of 10 q @ [digit_char m]"
      using False by (subst digits_of.simps) (simp add: q_def m_def)
    have ih: "is_decimal (digits_of 10 q) (int q)" by (rule less.IH[OF q(1)])
    then have ne: "digits_of 10 q \<noteq> []" and ds: "list_all (\<lambda>ch. ch \<in> set ''0123456789'') (digits_of 10 q)"
      and lead: "hd (digits_of 10 q) = CHR ''0'' \<longrightarrow> digits_of 10 q = ''0''"
      and val: "decimal_value (digits_of 10 q) = int q"
      unfolding is_decimal_def by blast+
    have nz: "hd (digits_of 10 q) \<noteq> CHR ''0''"
    proof
      assume "hd (digits_of 10 q) = CHR ''0''"
      then have "digits_of 10 q = ''0''" using lead by simp
      then have "decimal_value (digits_of 10 q) = 0" by (simp add: decimal_value_def)
      then show False using val q(2) by simp
    qed
    have "decimal_value (digits_of 10 n) = int n"
      unfolding d decimal_value_snoc val using digit_char_facts(2)[OF m] n by simp
    moreover have "list_all (\<lambda>ch. ch \<in> set ''0123456789'') (digits_of 10 n)"
      unfolding d using ds digit_char_facts(1)[OF m] by (simp del: set_simps)
    moreover have "hd (digits_of 10 n) \<noteq> CHR ''0''" unfolding d using ne nz by simp
    moreover have "digits_of 10 n \<noteq> []" unfolding d by simp
    ultimately show ?thesis by (simp only: is_decimal_def simp_thms)
  qed
qed

lemma Number_toString_decimal: "0 \<le> n \<Longrightarrow> is_decimal (Number_toString 10 n) n"
  using digits_of_decimal[of "nat n"] by (simp add: Number_toString_def)

section \<open>Validation and conversion\<close>

text \<open>
  C4. \<^verbatim>\<open>isValidHex\<close> accepts a string exactly when it is \<open>#\<close> followed by six
  hexadecimal digits of either case. \<^verbatim>\<open>hexToRgb\<close> accepts exactly such a string and
  the same six digits without the \<open>#\<close>; it returns the three channels that the three
  pairs of digits denote, each from 0 to 255, and returns \<^verbatim>\<open>null\<close> on every other
  string.
\<close>

theorem hex_validation_and_parsing:
  "(isValidHex s \<longleftrightarrow>
      (\<exists>a b c d e f. s = CHR ''#'' # [a, b, c, d, e, f] \<and> list_all is_hex_digit [a, b, c, d, e, f]))
   \<and> (\<forall>a b c d e f.
        list_all is_hex_digit [a, b, c, d, e, f]
        \<and> (s = CHR ''#'' # [a, b, c, d, e, f] \<or> s = [a, b, c, d, e, f]) \<longrightarrow>
          hexToRgb s = Some \<lparr>rgb_r = channel a b, rgb_g = channel c d, rgb_b = channel e f\<rparr>
          \<and> 0 \<le> channel a b \<and> channel a b \<le> 255
          \<and> 0 \<le> channel c d \<and> channel c d \<le> 255
          \<and> 0 \<le> channel e f \<and> channel e f \<le> 255)
   \<and> (\<not> (\<exists>a b c d e f.
            list_all is_hex_digit [a, b, c, d, e, f]
            \<and> (s = CHR ''#'' # [a, b, c, d, e, f] \<or> s = [a, b, c, d, e, f])) \<longrightarrow>
          hexToRgb s = None)"
proof (intro conjI allI impI)
  show "isValidHex s \<longleftrightarrow>
      (\<exists>a b c d e f. s = CHR ''#'' # [a, b, c, d, e, f] \<and> list_all is_hex_digit [a, b, c, d, e, f])"
    unfolding isValidHex_shape hex6_cases by blast
next
  fix a b c d e f
  assume h: "list_all is_hex_digit [a, b, c, d, e, f]
        \<and> (s = CHR ''#'' # [a, b, c, d, e, f] \<or> s = [a, b, c, d, e, f])"
  then show "hexToRgb s = Some \<lparr>rgb_r = channel a b, rgb_g = channel c d, rgb_b = channel e f\<rparr>"
    using hexToRgb_hex6[of a b c d e f] by blast
  from h show "0 \<le> channel a b" "channel a b \<le> 255" "0 \<le> channel c d" "channel c d \<le> 255"
    "0 \<le> channel e f" "channel e f \<le> 255"
    using channel_bounds[of a b] channel_bounds[of c d] channel_bounds[of e f] by simp_all
next
  assume "\<not> (\<exists>a b c d e f.
            list_all is_hex_digit [a, b, c, d, e, f]
            \<and> (s = CHR ''#'' # [a, b, c, d, e, f] \<or> s = [a, b, c, d, e, f]))"
  then have "\<not> (\<exists>t. hex6 t \<and> (s = t \<or> s = CHR ''#'' # t))"
    unfolding hex6_cases by blast
  then show "hexToRgb s = None" by (simp add: hexToRgb_None_iff)
qed

lemma hex_value_samples:
  "channel (CHR ''3'') (CHR ''b'') = 59" "channel (CHR ''8'') (CHR ''2'') = 130"
  "channel (CHR ''F'') (CHR ''6'') = 246"
  by (simp_all add: channel_def hex_value_def)

theorem hex_validation_and_parsing_witness:
  "isValidHex ''#3b82F6''
   \<and> hexToRgb ''#3b82F6'' = Some \<lparr>rgb_r = 59, rgb_g = 130, rgb_b = 246\<rparr>
   \<and> \<not> isValidHex ''#FFF'' \<and> hexToRgb ''#FFF'' = None"
  using hex_validation_and_parsing [of "''#3b82F6''"] hex_validation_and_parsing [of "''#FFF''"]
  by (simp add: is_hex_digit_def hex_value_samples)

text \<open>
  C10. For a string \<open>h\<close> that is \<open>#\<close> followed by six hexadecimal digits,
  \<^verbatim>\<open>hexToRgb\<close> succeeds and \<^verbatim>\<open>rgbToHex\<close> of its three channels is \<open>h\<close> in lower
  case: a valid hex colour that equals \<open>h\<close> when case is ignored.
\<close>

theorem hex_rgb_roundtrip:
  "isValidHex h \<Longrightarrow>
     (\<exists>c. hexToRgb h = Some c
          \<and> rgbToHex (rgb_r c) (rgb_g c) (rgb_b c) = toLowerCase h
          \<and> isValidHex (rgbToHex (rgb_r c) (rgb_g c) (rgb_b c))
          \<and> toLowerCase (rgbToHex (rgb_r c) (rgb_g c) (rgb_b c)) = toLowerCase h)"
proof -
  assume "isValidHex h"
  then obtain a b c d e f where h: "h = CHR ''#'' # [a, b, c, d, e, f]"
    and hx: "list_all is_hex_digit [a, b, c, d, e, f]"
    unfolding isValidHex_shape hex6_cases by blast
  let ?c = "\<lparr>rgb_r = channel a b, rgb_g = channel c d, rgb_b = channel e f\<rparr>"
  have 1: "hexToRgb h = Some ?c" using hexToRgb_hex6(2)[OF hx] h by simp
  have 2: "rgbToHex (rgb_r ?c) (rgb_g ?c) (rgb_b ?c) = toLowerCase h"
    using rgbToHex_channels[OF hx] h by simp
  have 3: "toLowerCase (toLowerCase h) = toLowerCase h"
    using hx h by (simp add: toLowerCase_def toLowerCase_char_hash hex_digit_lower)
  have 4: "isValidHex (toLowerCase h)"
    using hx h by (simp add: isValidHex_iff toLowerCase_def toLowerCase_char_hash hex_digit_lower)
  show ?thesis using 1 2 3 4 by simp
qed

theorem hex_rgb_roundtrip_witness:
  "isValidHex ''#3B82F6''
   \<and> hexToRgb ''#3B82F6'' = Some \<lparr>rgb_r = 59, rgb_g = 130, rgb_b = 246\<rparr>
   \<and> rgbToHex 59 130 246 = ''#3b82f6''
   \<and> toLowerCase ''#3B82F6'' = ''#3b82f6''"
proof -
  have v: "isValidHex ''#3B82F6''" by code_simp
  have r: "hexToRgb ''#3B82F6'' = Some \<lparr>rgb_r = 59, rgb_g = 130, rgb_b = 246\<rparr>" by code_simp
  have l: "toLowerCase ''#3B82F6'' = ''#3b82f6''" by code_simp
  show ?thesis using hex_rgb_roundtrip [OF v] v r l by simp
qed

text \<open>
  C5, as the code has it. For a valid hex colour \<^verbatim>\<open>hexToHsl\<close> returns integers: a hue
  from 0 to 360 degrees, a saturation and a lightness from 0 to 100 percent. Each is a
  nearest integer of the value that the transform of the specification has in exact
  arithmetic, up to the error of the computation in doubles (\<open>rounds\<close>): at an exact
  tie either neighbour can come out, as for \<^verbatim>\<open>#000d28\<close>, whose hue is 220.5 and is
  returned as 220. When the largest and the smallest channel coincide, hue and
  saturation are 0. The hue 360 is reached: the hue of \<^verbatim>\<open>#FF0001\<close> is 359.76.
\<close>

theorem hexToHsl_ranges:
  "list_all is_hex_digit [a, b, c, d, e, f] \<Longrightarrow>
     (\<exists>k. hexToHsl (CHR ''#'' # [a, b, c, d, e, f]) = Some k
        \<and> 0 \<le> hsl_h k \<and> hsl_h k \<le> 360
        \<and> 0 \<le> hsl_s k \<and> hsl_s k \<le> 100
        \<and> 0 \<le> hsl_l k \<and> hsl_l k \<le> 100
        \<and> rounds (hsl_h k) (hue_spec \<lparr>rgb_r = channel a b, rgb_g = channel c d, rgb_b = channel e f\<rparr>)
        \<and> rounds (hsl_s k)
             (saturation_spec \<lparr>rgb_r = channel a b, rgb_g = channel c d, rgb_b = channel e f\<rparr>)
        \<and> rounds (hsl_l k)
             (lightness_spec \<lparr>rgb_r = channel a b, rgb_g = channel c d, rgb_b = channel e f\<rparr>)
        \<and> (max (channel a b) (max (channel c d) (channel e f))
              = min (channel a b) (min (channel c d) (channel e f))
             \<longrightarrow> hsl_h k = 0 \<and> hsl_s k = 0))"
  by (rule hexToHsl_valid)

theorem hexToHsl_ranges_witness:
  "list_all is_hex_digit ''000d28''
   \<and> hexToHsl ''#000d28'' = Some \<lparr>hsl_h = 220, hsl_s = 100, hsl_l = 8\<rparr>
   \<and> hue_spec \<lparr>rgb_r = 0, rgb_g = 13, rgb_b = 40\<rparr> = 441 / 2
   \<and> rounds 220 (441 / 2)"
proof -
  have v: "list_all is_hex_digit ''000d28''" by (simp add: is_hex_digit_def)
  have k: "hexToHsl ''#000d28'' = Some \<lparr>hsl_h = 220, hsl_s = 100, hsl_l = 8\<rparr>" by code_simp
  have c: "channel (CHR ''0'') (CHR ''0'') = 0" "channel (CHR ''0'') (CHR ''d'') = 13"
    "channel (CHR ''2'') (CHR ''8'') = 40"
    by (simp_all add: channel_def hex_value_def)
  have h: "hue_spec \<lparr>rgb_r = 0, rgb_g = 13, rgb_b = 40\<rparr> = 441 / 2" by code_simp
  show ?thesis using hexToHsl_ranges [OF v] v k c h by simp
qed

theorem hexToHsl_hue_360:
  "list_all is_hex_digit ''FF0001''
   \<and> hexToHsl ''#FF0001'' = Some \<lparr>hsl_h = 360, hsl_s = 100, hsl_l = 50\<rparr>"
  by code_simp

text \<open>
  C6. The display text of \<^verbatim>\<open>#3B82F6\<close> is \<^verbatim>\<open>rgb(59, 130, 246)\<close> in the format
  \<^verbatim>\<open>rgb\<close> and \<^verbatim>\<open>hsl(217, 91%, 60%)\<close> in the format \<^verbatim>\<open>hsl\<close>; that of
  \<^verbatim>\<open>#000000\<close> in the format \<^verbatim>\<open>hsl\<close> is \<^verbatim>\<open>hsl(0, 0%, 0%)\<close>.
\<close>

theorem getFormattedColor_examples:
  "getFormattedColor FormatRgb ''#3B82F6'' = ''rgb(59, 130, 246)''
   \<and> getFormattedColor FormatHsl ''#3B82F6'' = ''hsl(217, 91%, 60%)''
   \<and> getFormattedColor FormatHsl ''#000000'' = ''hsl(0, 0%, 0%)''"
  by code_simp

text \<open>
  C7. A stored colour that is not \<open>#\<close> followed by six hexadecimal digits is displayed
  as it is, whatever the format. A valid one is displayed as it is in the format
  \<^verbatim>\<open>hex\<close>; as \<^verbatim>\<open>rgb(r, g, b)\<close> with the decimal numerals of its three channels in
  the format \<^verbatim>\<open>rgb\<close>; and as \<^verbatim>\<open>hsl(h, s%, l%)\<close> in the format \<^verbatim>\<open>hsl\<close>, with the
  decimal numerals of integers \<open>h\<close>, \<open>s\<close>, \<open>l\<close> that round the hue, the saturation and the
  lightness of those channels.
\<close>

theorem getFormattedColor_formats:
  "(\<not> (\<exists>t. color = CHR ''#'' # t \<and> hex6 t) \<longrightarrow> getFormattedColor fmt color = color)
   \<and> (\<forall>a b c d e f.
        color = CHR ''#'' # [a, b, c, d, e, f] \<and> list_all is_hex_digit [a, b, c, d, e, f] \<longrightarrow>
        getFormattedColor FormatHex color = color
        \<and> (\<exists>R G B.
              getFormattedColor FormatRgb color = ''rgb('' @ R @ '', '' @ G @ '', '' @ B @ '')''
              \<and> is_decimal R (channel a b) \<and> is_decimal G (channel c d)
              \<and> is_decimal B (channel e f))
        \<and> (\<exists>H S L h s l.
              getFormattedColor FormatHsl color = ''hsl('' @ H @ '', '' @ S @ ''%, '' @ L @ ''%)''
              \<and> is_decimal H h \<and> is_decimal S s \<and> is_decimal L l
              \<and> rounds h (hue_spec \<lparr>rgb_r = channel a b, rgb_g = channel c d, rgb_b = channel e f\<rparr>)
              \<and> rounds s (saturation_spec
                             \<lparr>rgb_r = channel a b, rgb_g = channel c d, rgb_b = channel e f\<rparr>)
              \<and> rounds l (lightness_spec
                             \<lparr>rgb_r = channel a b, rgb_g = channel c d, rgb_b = channel e f\<rparr>)))"
proof (intro conjI impI allI)
  assume "\<not> (\<exists>t. color = CHR ''#'' # t \<and> hex6 t)"
  then show "getFormattedColor fmt color = color"
    by (simp add: getFormattedColor_def isValidHex_shape)
next
  fix a b c d e f
  assume h: "color = CHR ''#'' # [a, b, c, d, e, f] \<and> list_all is_hex_digit [a, b, c, d, e, f]"
  then have hx: "list_all is_hex_digit [a, b, c, d, e, f]" by simp
  have v: "isValidHex color" using h by (simp add: isValidHex_iff)
  have p: "hexToRgb color = Some \<lparr>rgb_r = channel a b, rgb_g = channel c d, rgb_b = channel e f\<rparr>"
    using hexToRgb_hex6(2)[OF hx] h by simp
  show "getFormattedColor FormatHex color = color" using v by (simp add: getFormattedColor_def)
  have ch: "0 \<le> channel a b" "0 \<le> channel c d" "0 \<le> channel e f"
    using hx channel_bounds[of a b] channel_bounds[of c d] channel_bounds[of e f] by simp_all
  have "getFormattedColor FormatRgb color =
            ''rgb('' @ Number_toString 10 (channel a b) @ '', '' @ Number_toString 10 (channel c d)
              @ '', '' @ Number_toString 10 (channel e f) @ '')''"
    using v p by (simp add: getFormattedColor_def)
  then show "\<exists>R G B.
              getFormattedColor FormatRgb color = ''rgb('' @ R @ '', '' @ G @ '', '' @ B @ '')''
              \<and> is_decimal R (channel a b) \<and> is_decimal G (channel c d)
              \<and> is_decimal B (channel e f)"
    using Number_toString_decimal[OF ch(1)] Number_toString_decimal[OF ch(2)]
      Number_toString_decimal[OF ch(3)] by blast
  from hexToHsl_valid[OF hx] obtain k where k: "hexToHsl color = Some k"
    "0 \<le> hsl_h k" "0 \<le> hsl_s k" "0 \<le> hsl_l k"
    "rounds (hsl_h k) (hue_spec \<lparr>rgb_r = channel a b, rgb_g = channel c d, rgb_b = channel e f\<rparr>)"
    "rounds (hsl_s k) (saturation_spec \<lparr>rgb_r = channel a b, rgb_g = channel c d, rgb_b = channel e f\<rparr>)"
    "rounds (hsl_l k) (lightness_spec \<lparr>rgb_r = channel a b, rgb_g = channel c d, rgb_b = channel e f\<rparr>)"
    using h by auto
  have "getFormattedColor FormatHsl color =
                ''hsl('' @ Number_toString 10 (hsl_h k) @ '', '' @ Number_toString 10 (hsl_s k)
                  @ ''%, '' @ Number_toString 10 (hsl_l k) @ ''%)''"
    using v k(1) by (simp add: getFormattedColor_def)
  then show "\<exists>H S L h s l.
              getFormattedColor FormatHsl color = ''hsl('' @ H @ '', '' @ S @ ''%, '' @ L @ ''%)''
              \<and> is_decimal H h \<and> is_decimal S s \<and> is_decimal L l
              \<and> rounds h (hue_spec \<lparr>rgb_r = channel a b, rgb_g = channel c d, rgb_b = channel e f\<rparr>)
              \<and> rounds s (saturation_spec
                             \<lparr>rgb_r = channel a b, rgb_g = channel c d, rgb_b = channel e f\<rparr>)
              \<and> rounds l (lightness_spec
                             \<lparr>rgb_r = channel a b, rgb_g = channel c d, rgb_b = channel e f\<rparr>)"
    using Number_toString_decimal[OF k(2)] Number_toString_decimal[OF k(3)]
      Number_toString_decimal[OF k(4)] k(5,6,7) by blast
qed

theorem getFormattedColor_formats_witness:
  "\<not> (\<exists>t. ''red'' = CHR ''#'' # t \<and> hex6 t)
   \<and> getFormattedColor FormatHsl ''red'' = ''red''
   \<and> list_all is_hex_digit ''4ba6f3''
   \<and> getFormattedColor FormatHex ''#4ba6f3'' = ''#4ba6f3''
   \<and> getFormattedColor FormatRgb ''#4ba6f3'' = ''rgb(75, 166, 243)''
   \<and> getFormattedColor FormatHsl ''#4ba6f3'' = ''hsl(207, 87%, 62%)''"
proof -
  have n: "\<not> (\<exists>t. ''red'' = CHR ''#'' # t \<and> hex6 t)" by simp
  have v: "list_all is_hex_digit ''4ba6f3''" by (simp add: is_hex_digit_def)
  have r: "getFormattedColor FormatRgb ''#4ba6f3'' = ''rgb(75, 166, 243)''" by code_simp
  have k: "getFormattedColor FormatHsl ''#4ba6f3'' = ''hsl(207, 87%, 62%)''" by code_simp
  show ?thesis
    using getFormattedColor_formats [of "''red''" FormatHsl]
      getFormattedColor_formats [of "''#4ba6f3''" FormatHsl] n v r k by simp
qed

section \<open>The history policy\<close>

text \<open>
  C2. Recording a string that is not \<open>#\<close> followed by exactly six hexadecimal digits
  changes nothing: the history, the persisted list and the rest of the state are as
  before, whatever the bound.
\<close>

theorem updateRecentColors_invalid_noop:
  "\<not> (\<exists>t. s = CHR ''#'' # t \<and> hex6 t) \<Longrightarrow> updateRecentColors p s st = st"
  by (simp add: updateRecentColors_def isValidHex_shape)

theorem updateRecentColors_invalid_noop_witness:
  "\<not> (\<exists>t. ''#GGHHII'' = CHR ''#'' # t \<and> hex6 t)
   \<and> updateRecentColors sample_props ''#GGHHII'' sample_state = sample_state"
proof -
  have h: "\<not> (\<exists>t. ''#GGHHII'' = CHR ''#'' # t \<and> hex6 t)"
    by (simp add: hex6_def is_hex_digit_def)
  show ?thesis
    using h updateRecentColors_invalid_noop [OF h, of sample_props sample_state] by simp
qed

text \<open>
  C1, as the code has it. For a valid colour \<open>c\<close> and a bound of at least 1,
  \<^verbatim>\<open>updateRecentColors\<close> removes the entries equal to \<open>c\<close> when case is ignored,
  prepends \<open>c\<close> as it was given, and keeps at most \<open>max\<close> entries. The function does
  not change the case of \<open>c\<close>: the text-input and native-picker handlers pass it in
  upper case, and then the result is the one the specification describes. After
  recording at least \<open>max\<close> valid colours, distinct when case is ignored, the history
  is exactly the \<open>max\<close> most recent ones, most recent first.
\<close>

theorem updateRecentColors_valid:
  "isValidHex c \<Longrightarrow> 1 \<le> maxRecentColors p \<Longrightarrow>
     recentColors (updateRecentColors p c st) =
       take (nat (maxRecentColors p))
            (c # filter (\<lambda>e. toLowerCase e \<noteq> toLowerCase c) (recentColors st))
     \<and> (toUpperCase c = c \<longrightarrow>
          recentColors (updateRecentColors p c st) =
            record_spec (recentColors st) c (maxRecentColors p))
     \<and> (\<forall>cs. list_all isValidHex cs \<and> distinct (map toLowerCase cs)
               \<and> nat (maxRecentColors p) \<le> length cs \<longrightarrow>
            recentColors (recordAll p cs st) = take (nat (maxRecentColors p)) (rev cs)
            \<and> length (recentColors (recordAll p cs st)) = nat (maxRecentColors p))"
proof -
  assume v: "isValidHex c" and m: "1 \<le> maxRecentColors p"
  have 1: "recentColors (updateRecentColors p c st) =
       take (nat (maxRecentColors p))
            (c # filter (\<lambda>e. toLowerCase e \<noteq> toLowerCase c) (recentColors st))"
    using v m by (simp add: recentColors_update_valid slice0_nonneg)
  have 2: "recentColors (recordAll p cs st) = take (nat (maxRecentColors p)) (rev cs)
           \<and> length (recentColors (recordAll p cs st)) = nat (maxRecentColors p)"
    if h: "list_all isValidHex cs \<and> distinct (map toLowerCase cs)
           \<and> nat (maxRecentColors p) \<le> length cs" for cs
  proof -
    have ne: "cs \<noteq> []" using h m by auto
    have "recentColors (recordAll p cs st) = take (nat (maxRecentColors p)) (rev cs)"
      using recordAll_full[of p cs st] h m ne by simp
    then show ?thesis using h by simp
  qed
  show ?thesis using 1 2 by (simp add: record_spec_def)
qed

theorem updateRecentColors_valid_witness:
  "isValidHex ''#3B82F6'' \<and> 1 \<le> maxRecentColors sample_props
   \<and> recentColors (updateRecentColors sample_props ''#3B82F6'' sample_state)
       = [''#3B82F6'', ''#FF5733'', ''#000000'']
   \<and> 1 \<le> maxRecentColors (sample_props\<lparr>maxRecentColors := 2\<rparr>)
   \<and> recentColors (recordAll (sample_props\<lparr>maxRecentColors := 2\<rparr>)
                       [''#FF0000'', ''#00FF00'', ''#0000FF''] sample_state)
       = [''#0000FF'', ''#00FF00'']"
proof -
  let ?p2 = "sample_props\<lparr>maxRecentColors := 2\<rparr>"
  let ?cs = "[''#FF0000'', ''#00FF00'', ''#0000FF'']"
  have v: "isValidHex ''#3B82F6''" by code_simp
  have m: "1 \<le> maxRecentColors sample_props" by (simp add: sample_props_def)
  have m2: "1 \<le> maxRecentColors ?p2" by simp
  have e: "take (nat (maxRecentColors sample_props))
            (''#3B82F6'' # filter (\<lambda>e. toLowerCase e \<noteq> toLowerCase ''#3B82F6'')
                                  (recentColors sample_state))
           = [''#3B82F6'', ''#FF5733'', ''#000000'']" by code_simp
  have cs: "list_all isValidHex ?cs \<and> distinct (map toLowerCase ?cs)
            \<and> nat (maxRecentColors ?p2) \<le> length ?cs" by code_simp
  have "recentColors (recordAll ?p2 ?cs sample_state) = take (nat (maxRecentColors ?p2)) (rev ?cs)"
    using updateRecentColors_valid [OF v m2, of sample_state] cs by blast
  then have r: "recentColors (recordAll ?p2 ?cs sample_state) = [''#0000FF'', ''#00FF00'']"
    by simp
  show ?thesis using updateRecentColors_valid [OF v m, of sample_state] v m m2 e r by simp
qed

theorem updateRecentColors_keeps_case:
  "isValidHex ''#abcdef'' \<and> 1 \<le> maxRecentColors sample_props
   \<and> recentColors (updateRecentColors sample_props ''#abcdef'' sample_state)
       = [''#abcdef'', ''#FF5733'', ''#3b82f6'', ''#000000'']
   \<and> record_spec (recentColors sample_state) ''#abcdef'' (maxRecentColors sample_props)
       = [''#ABCDEF'', ''#FF5733'', ''#3b82f6'', ''#000000'']
   \<and> recentColors (updateRecentColors sample_props ''#abcdef'' sample_state)
       \<noteq> record_spec (recentColors sample_state) ''#abcdef'' (maxRecentColors sample_props)"
  by code_simp

text \<open>
  C3, as the code has it. \<^verbatim>\<open>updateRecentColors\<close> preserves the invariant of the
  history, for every string and every bound. For a bound of at least 1, valid colours
  \<open>c1\<close> and \<open>c2\<close> that differ when case is ignored, and any starting list, recording
  \<open>c1\<close>, \<open>c2\<close>, \<open>c1\<close> gives a list that starts with \<open>c1\<close>, has no other entry equal to
  \<open>c1\<close> when case is ignored, and has at most \<open>max\<close> entries. (With the bound 0 the
  history stays empty.)
\<close>

theorem recent_invariant_preserved:
  "(recent_invariant (recentColors st) (maxRecentColors p) \<longrightarrow>
      recent_invariant (recentColors (updateRecentColors p c st)) (maxRecentColors p))
   \<and> (isValidHex c1 \<and> isValidHex c2 \<and> toLowerCase c1 \<noteq> toLowerCase c2
        \<and> 1 \<le> maxRecentColors p \<longrightarrow>
        (\<exists>rest. recentColors (recordAll p [c1, c2, c1] st) = c1 # rest
           \<and> (\<forall>e\<in>set rest. toLowerCase e \<noteq> toLowerCase c1)
           \<and> int (length (c1 # rest)) \<le> maxRecentColors p))"
proof (intro conjI impI)
  assume "recent_invariant (recentColors st) (maxRecentColors p)"
  then show "recent_invariant (recentColors (updateRecentColors p c st)) (maxRecentColors p)"
    by (rule update_invariant)
next
  assume h: "isValidHex c1 \<and> isValidHex c2 \<and> toLowerCase c1 \<noteq> toLowerCase c2
        \<and> 1 \<le> maxRecentColors p"
  define s2 where "s2 = recordAll p [c1, c2] st"
  define n where "n = nat (maxRecentColors p) - 1"
  let ?rest = "take n (filter (\<lambda>e. toLowerCase e \<noteq> toLowerCase c1) (recentColors s2))"
  have n: "nat (maxRecentColors p) = Suc n" using h by (simp add: n_def)
  have "recordAll p [c1, c2, c1] st = updateRecentColors p c1 s2"
    by (simp add: recordAll_def s2_def)
  then have eq: "recentColors (recordAll p [c1, c2, c1] st) = c1 # ?rest"
    using h n by (simp add: recentColors_update_valid slice0_nonneg)
  have "\<forall>e\<in>set ?rest. toLowerCase e \<noteq> toLowerCase c1"
    by (auto dest: in_set_takeD)
  moreover have "int (length (c1 # ?rest)) \<le> maxRecentColors p"
    using n by simp
  ultimately show "\<exists>rest. recentColors (recordAll p [c1, c2, c1] st) = c1 # rest
           \<and> (\<forall>e\<in>set rest. toLowerCase e \<noteq> toLowerCase c1)
           \<and> int (length (c1 # rest)) \<le> maxRecentColors p"
    using eq by blast
qed

theorem recent_invariant_preserved_witness:
  "recent_invariant (recentColors sample_state) (maxRecentColors sample_props)
   \<and> recent_invariant (recentColors (updateRecentColors sample_props ''#3B82F6'' sample_state))
        (maxRecentColors sample_props)
   \<and> isValidHex ''#FF0000'' \<and> isValidHex ''#00FF00''
   \<and> toLowerCase ''#FF0000'' \<noteq> toLowerCase ''#00FF00''
   \<and> 1 \<le> maxRecentColors sample_props
   \<and> recentColors (recordAll sample_props [''#FF0000'', ''#00FF00'', ''#FF0000''] sample_state)
       = [''#FF0000'', ''#00FF00'', ''#FF5733'', ''#3b82f6'', ''#000000'']"
proof -
  have i: "recent_invariant (recentColors sample_state) (maxRecentColors sample_props)"
    by code_simp
  have v: "isValidHex ''#FF0000''" "isValidHex ''#00FF00''"
    "toLowerCase ''#FF0000'' \<noteq> toLowerCase ''#00FF00''" by code_simp+
  have m: "1 \<le> maxRecentColors sample_props" by (simp add: sample_props_def)
  have e: "recentColors (recordAll sample_props [''#FF0000'', ''#00FF00'', ''#FF0000''] sample_state)
       = [''#FF0000'', ''#00FF00'', ''#FF5733'', ''#3b82f6'', ''#000000'']" by code_simp
  show ?thesis
    using recent_invariant_preserved
      [of sample_state sample_props "''#3B82F6''" "''#FF0000''" "''#00FF00''"] i v m e
    by simp
qed

theorem recordAll_bound_zero:
  "isValidHex ''#FF0000'' \<and> isValidHex ''#00FF00''
   \<and> toLowerCase ''#FF0000'' \<noteq> toLowerCase ''#00FF00''
   \<and> recentColors (recordAll (sample_props\<lparr>maxRecentColors := 0\<rparr>)
                       [''#FF0000'', ''#00FF00'', ''#FF0000''] sample_state) = []"
  by code_simp

section \<open>Typing into the text field\<close>




section \<open>Loading\<close>

text \<open>
  Where the read throws, the key is absent or empty, or the parser throws, the cell
  keeps the value it had, which is the empty array at activation.
\<close>

lemma load_recent_failures:
  "load_recent Throw JSON_parse recent = recent"
  "load_recent (Normal None) JSON_parse recent = recent"
  "load_recent (Normal (Some '''')) JSON_parse recent = recent"
  "JSON_parse stored = Throw \<Longrightarrow> load_recent (Normal (Some stored)) JSON_parse recent = recent"
  by (simp_all add: load_recent_def)

text \<open>
  C8 says that loading always yields a list, the empty one when the content is
  malformed. The effect stores whatever \<^verbatim>\<open>JSON.parse\<close> returns: with the text
  \<^verbatim>\<open>null\<close> under the key, which parses to \<^verbatim>\<open>null\<close>, the cell holds \<^verbatim>\<open>null\<close> after
  the effect, not a list.
\<close>

theorem load_recent_adopts_parsed_value:
  "load_recent (Normal (Some ''null'')) (\<lambda>text. if text = ''null'' then Normal JNull else Throw)
     (JArray []) = JNull"
  by (simp add: load_recent_def)

end
